theory Spec2Isabelle
  imports Main "HOL-Library.Word" "HOL-Library.AList"
begin

section \<open>The garbage-collected object heap of picrin (extlib/benz/gc.c)\<close>

text \<open>
  A shallow embedding of \<^verbatim>\<open>gc.c\<close>: the allocator shim, the root arena, the mark phase
  with its weak-map fixed point, the sweep phase and the entry points \<^verbatim>\<open>pic_gc\<close> and
  \<^verbatim>\<open>pic_obj_alloc_unsafe\<close>. The interpreter instance \<^verbatim>\<open>pic_state\<close> is a record that
  every function takes and returns; a panic is a value of the error type.
\<close>

subsection \<open>Values, objects and the interpreter state\<close>

text \<open>\<^verbatim>\<open>size_t\<close> on an LP64 platform; a pointer takes 8 bytes.\<close>

type_synonym size_t = "64 word"

text \<open>Raw memory blocks handed out by \<^verbatim>\<open>allocf\<close> are named by their address; 0 is NULL.\<close>

type_synonym ptr = nat

text \<open>The address of a heap object (\<^verbatim>\<open>struct object *\<close>); a nullable one is an option.\<close>

type_synonym addr = nat

definition NULL :: ptr where
  "NULL = 0"

definition sizeof_obj_ptr :: size_t where
  "sizeof_obj_ptr = 8"

text \<open>
  A value is an immediate or a pointer to a heap object. \<^verbatim>\<open>pic_obj_p\<close> and
  \<^verbatim>\<open>pic_obj_ptr\<close> are the two accessors \<^verbatim>\<open>gc.c\<close> uses.
\<close>

datatype pic_value =
    Nil_val
  | Undef_val
  | Invalid_val
  | Eof_val
  | Bool_val bool
  | Int_val int
  | Char_val char
  | Float_val "64 word"
  | Obj_val addr

fun pic_obj_p :: "pic_value \<Rightarrow> bool" where
  "pic_obj_p (Obj_val p) = True"
| "pic_obj_p v = False"

text \<open>The objects among a list of values, in order: what a run of \<^verbatim>\<open>gc_mark\<close> calls visits.\<close>

fun obj_ptrs :: "pic_value list \<Rightarrow> addr list" where
  "obj_ptrs [] = []"
| "obj_ptrs (Obj_val p # vs) = p # obj_ptrs vs"
| "obj_ptrs (v # vs) = obj_ptrs vs"

fun opt_ptr :: "addr option \<Rightarrow> addr list" where
  "opt_ptr None = []"
| "opt_ptr (Some p) = [p]"

text \<open>The type tags of heap objects: the arms of the switch in \<^verbatim>\<open>gc_mark_object\<close>.\<close>

datatype pic_type =
    PIC_TYPE_PAIR
  | PIC_TYPE_CXT
  | PIC_TYPE_FUNC
  | PIC_TYPE_IREP
  | PIC_TYPE_PORT
  | PIC_TYPE_ERROR
  | PIC_TYPE_STRING
  | PIC_TYPE_VECTOR
  | PIC_TYPE_BLOB
  | PIC_TYPE_ID
  | PIC_TYPE_ENV
  | PIC_TYPE_DATA
  | PIC_TYPE_DICT
  | PIC_TYPE_RECORD
  | PIC_TYPE_SYMBOL
  | PIC_TYPE_WEAK
  | PIC_TYPE_CP

text \<open>
  The members of the union in \<^verbatim>\<open>struct object\<close>, with the fields the collector reads.
  A hash table is the list of its live slots in iteration order. The \<^verbatim>\<open>mark\<close> hook of a
  DATA object is the list of values it passes to the callback (\<open>None\<close>: no hook); its
  \<^verbatim>\<open>dtor\<close> hook is present or not. \<open>No_payload\<close> is a cell whose payload has not been
  written yet.
\<close>

datatype payload =
    Pair_obj pic_value pic_value
  | Cxt_obj "pic_value list" "addr option"
  | Func_obj "pic_value list"
  | Irep_obj nat "addr option"
  | Port_obj
  | Error_obj addr addr pic_value addr
  | String_obj nat
  | Vector_obj ptr "pic_value list"
  | Blob_obj ptr
  | Id_obj addr addr
  | Env_obj "(addr \<times> addr) list" "addr option"
  | Data_obj ptr "pic_value list option" bool
  | Dict_obj "(pic_value \<times> pic_value) list"
  | Record_obj pic_value pic_value
  | Symbol_obj addr
  | Weak_obj "(addr \<times> pic_value) list"
  | Cp_obj "addr option" "addr option" "addr option"
  | No_payload

record object =
  tt :: pic_type
  body :: payload

datatype error = Panic string | Assertion_failed string

text \<open>
  What a finalizer does outside the object heap, through functions that are not part of
  \<^verbatim>\<open>gc.c\<close>: recorded in call order.
\<close>

datatype fin_call =
    Rope_decref nat
  | Irep_decref nat
  | Kh_destroy addr
  | Dtor ptr

text \<open>
  The interpreter instance. \<open>'u\<close> is the allocator's own state (\<^verbatim>\<open>userdata\<close>), \<open>'h\<close> what
  the back-end keeps besides the page list (free list or bitmaps).
  \<^item> \<open>arena\<close> is the array behind \<^verbatim>\<open>pic->arena\<close>, by index; \<open>arena_size\<close> is its
    capacity and \<open>arena_idx\<close> the number of slots in use.
  \<^item> \<open>objs\<close> is the object store; \<open>marks\<close> holds the objects whose mark bit is set.
  \<^item> \<open>weaks\<close> is the chain \<^verbatim>\<open>heap->weaks\<close>, linked through the \<^verbatim>\<open>prev\<close> fields, as the
    list of its members from the head.
  \<^item> \<open>oblist\<close> is the symbol table, keyed by the symbol's name; a slot may hold NULL.
  \<^item> \<open>stack\<close> is the operand stack from \<^verbatim>\<open>stbase\<close> to \<^verbatim>\<open>sp\<close>; \<open>callinfo\<close> the \<^verbatim>\<open>cxt\<close>
    fields of the frames from \<^verbatim>\<open>ci\<close> down to \<^verbatim>\<open>cibase\<close>; \<open>ireps\<close> the literal pools.
\<close>

record ('u, 'h) pic_state =
  allocf :: "'u \<Rightarrow> ptr \<Rightarrow> size_t \<Rightarrow> ptr \<times> 'u"
  userdata :: 'u
  mem :: "ptr \<Rightarrow> 8 word list option"
  arena_ptr :: ptr
  arena :: "nat \<Rightarrow> addr"
  arena_size :: size_t
  arena_idx :: size_t
  gc_enable :: bool
  objs :: "(addr \<times> object) list"
  marks :: "addr set"
  weaks :: "addr list"
  pages :: "nat list"
  heap_priv :: 'h
  oblist :: "(string \<times> addr option) list"
  cp :: "addr option"
  stack :: "pic_value list"
  callinfo :: "addr option list"
  ireps :: "addr list list"
  globals :: pic_value
  macros :: pic_value
  err :: pic_value
  features :: pic_value
  ltable :: "(addr \<times> addr \<times> addr) list"
  fin_calls :: "fin_call list"

subsection \<open>The allocator shim\<close>

text \<open>
  Modelled from the spec: \<^verbatim>\<open>pic_panic\<close> is defined outside \<^verbatim>\<open>gc.c\<close>. It reports the
  message through the host's panic mechanism and terminates the interpreter instance;
  nothing runs after it, so a panic carries no state.
\<close>

definition pic_panic :: "string \<Rightarrow> error + 'a" where
  "pic_panic msg = Inl (Panic msg)"

definition pic_malloc ::
  "('u, 'h) pic_state \<Rightarrow> size_t \<Rightarrow> error + (ptr \<times> ('u, 'h) pic_state)" where
  "pic_malloc s n =
     (let (p, u) = allocf s (userdata s) NULL n in
      if p = NULL \<and> n > 0 then pic_panic ''memory exhausted''
      else Inr (p, s\<lparr>userdata := u\<rparr>))"

definition pic_realloc ::
  "('u, 'h) pic_state \<Rightarrow> ptr \<Rightarrow> size_t \<Rightarrow> error + (ptr \<times> ('u, 'h) pic_state)" where
  "pic_realloc s p0 n =
     (let (p, u) = allocf s (userdata s) p0 n in
      if p = NULL \<and> n > 0 then pic_panic ''memory exhausted''
      else Inr (p, s\<lparr>userdata := u\<rparr>))"

text \<open>\<^verbatim>\<open>memset(ptr, c, n)\<close>: the first \<open>n\<close> bytes of the block become \<open>c\<close>; no byte when \<open>n = 0\<close>.\<close>

definition memset ::
  "ptr \<Rightarrow> 8 word \<Rightarrow> size_t \<Rightarrow> ('u, 'h) pic_state \<Rightarrow> ('u, 'h) pic_state" where
  "memset p c n s =
     (if n = 0 then s
      else s\<lparr>mem := (mem s)(p := Some (replicate (unat n) c @
                 drop (unat n) (case mem s p of None \<Rightarrow> [] | Some bs \<Rightarrow> bs)))\<rparr>)"

definition pic_calloc ::
  "('u, 'h) pic_state \<Rightarrow> size_t \<Rightarrow> size_t \<Rightarrow> error + (ptr \<times> ('u, 'h) pic_state)" where
  "pic_calloc s cnt n0 =
     (let n = n0 * cnt;
          (p, u) = allocf s (userdata s) NULL n in
      if p = NULL \<and> n > 0 then pic_panic ''memory exhausted''
      else Inr (p, memset p 0 n (s\<lparr>userdata := u\<rparr>)))"

definition pic_free :: "('u, 'h) pic_state \<Rightarrow> ptr \<Rightarrow> ('u, 'h) pic_state" where
  "pic_free s p = s\<lparr>userdata := snd (allocf s (userdata s) p 0)\<rparr>"

subsection \<open>The root arena\<close>

definition gc_protect ::
  "('u, 'h) pic_state \<Rightarrow> addr \<Rightarrow> error + ('u, 'h) pic_state" where
  "gc_protect s obj =
     (let store = (\<lambda>t. t\<lparr>arena := (arena t)(unat (arena_idx t) := obj),
                          arena_idx := arena_idx t + 1\<rparr>) in
      if arena_idx s \<ge> arena_size s then
        (let s1 = s\<lparr>arena_size := arena_size s * 2 + 1\<rparr> in
         case pic_realloc s1 (arena_ptr s1) (sizeof_obj_ptr * arena_size s1) of
           Inl e \<Rightarrow> Inl e
         | Inr (p, s2) \<Rightarrow> Inr (store (s2\<lparr>arena_ptr := p\<rparr>)))
      else Inr (store s))"

definition pic_protect ::
  "('u, 'h) pic_state \<Rightarrow> pic_value \<Rightarrow> error + (pic_value \<times> ('u, 'h) pic_state)" where
  "pic_protect s v =
     (case v of
        Obj_val p \<Rightarrow> (case gc_protect s p of Inl e \<Rightarrow> Inl e | Inr s' \<Rightarrow> Inr (v, s'))
      | _ \<Rightarrow> Inr (v, s))"

definition pic_enter :: "('u, 'h) pic_state \<Rightarrow> size_t" where
  "pic_enter s = arena_idx s"

definition pic_leave :: "('u, 'h) pic_state \<Rightarrow> size_t \<Rightarrow> ('u, 'h) pic_state" where
  "pic_leave s m = s\<lparr>arena_idx := m\<rparr>"

text \<open>The arena slots the collector scans as roots: indices below \<open>arena_idx\<close>.\<close>

definition arena_roots :: "('u, 'h) pic_state \<Rightarrow> addr list" where
  "arena_roots s = map (arena s) [0 ..< unat (arena_idx s)]"

subsection \<open>The back-end\<close>

text \<open>
  \<^verbatim>\<open>gc.c\<close> includes one of two back-ends (\<^verbatim>\<open>gc/markandsweep.c\<close>, \<^verbatim>\<open>gc/bitmap.c\<close>), which are
  not part of the file. Their functions and the configuration macros are parameters of the
  model: every function below that reaches the back-end takes it as its first argument,
  and what is proved about such a function holds for every back-end. A page is named by
  its address; \<^verbatim>\<open>gc_sweep_page\<close> returns the number of units in use on the page.
\<close>

record ('u, 'h) backend =
  gc_init :: "('u, 'h) pic_state \<Rightarrow> ('u, 'h) pic_state"
  heap_alloc :: "('u, 'h) pic_state \<Rightarrow> size_t \<Rightarrow> addr option \<times> ('u, 'h) pic_state"
  heap_morecore :: "('u, 'h) pic_state \<Rightarrow> error + ('u, 'h) pic_state"
  gc_sweep_page :: "('u, 'h) pic_state \<Rightarrow> nat \<Rightarrow> size_t \<times> ('u, 'h) pic_state"
  PAGE_UNITS :: size_t
  PIC_PAGE_REQUEST_THRESHOLD :: "size_t \<Rightarrow> size_t"
  PIC_USE_BITMAPGC :: bool
  GC_STRESS :: bool

text \<open>
  Modelled from the spec: \<^verbatim>\<open>is_marked\<close> and \<^verbatim>\<open>mark\<close> belong to the back-end interface; an
  object has one mark bit (in its header or in a side bitmap), set by \<^verbatim>\<open>mark\<close> and read by
  \<^verbatim>\<open>is_marked\<close>.
\<close>

definition is_marked :: "('u, 'h) pic_state \<Rightarrow> addr \<Rightarrow> bool" where
  "is_marked s a = (a \<in> marks s)"

definition mark :: "('u, 'h) pic_state \<Rightarrow> addr \<Rightarrow> ('u, 'h) pic_state" where
  "mark s a = s\<lparr>marks := insert a (marks s)\<rparr>"

definition obj_at :: "('u, 'h) pic_state \<Rightarrow> addr \<Rightarrow> object option" where
  "obj_at s a = map_of (objs s) a"

subsection \<open>The mark phase\<close>

text \<open>
  The objects one arm of the switch in \<^verbatim>\<open>gc_mark_object\<close> goes on to, in the order of the
  calls \<^verbatim>\<open>gc_mark\<close>, \<^verbatim>\<open>gc_mark_object\<close> and \<^verbatim>\<open>LOOP\<close>; immediates and NULL pointers are the
  ones the arm skips. The WEAK arm traces nothing. An object whose payload is not the one
  its tag names (a cell not yet initialised) is read as having no outgoing pointer.
\<close>

definition trace_refs :: "object \<Rightarrow> addr list" where
  "trace_refs ob =
     (case tt ob of
        PIC_TYPE_PAIR \<Rightarrow>
          (case body ob of Pair_obj car cdr \<Rightarrow> obj_ptrs [car] @ obj_ptrs [cdr] | _ \<Rightarrow> [])
      | PIC_TYPE_CXT \<Rightarrow>
          (case body ob of Cxt_obj regs up \<Rightarrow> obj_ptrs regs @ opt_ptr up | _ \<Rightarrow> [])
      | PIC_TYPE_FUNC \<Rightarrow>
          (case body ob of Func_obj locals \<Rightarrow> obj_ptrs locals | _ \<Rightarrow> [])
      | PIC_TYPE_IREP \<Rightarrow>
          (case body ob of Irep_obj irep cxt \<Rightarrow> opt_ptr cxt | _ \<Rightarrow> [])
      | PIC_TYPE_PORT \<Rightarrow> []
      | PIC_TYPE_ERROR \<Rightarrow>
          (case body ob of
             Error_obj etype msg irrs estack \<Rightarrow> [etype, msg] @ obj_ptrs [irrs] @ [estack]
           | _ \<Rightarrow> [])
      | PIC_TYPE_STRING \<Rightarrow> []
      | PIC_TYPE_VECTOR \<Rightarrow>
          (case body ob of Vector_obj p vs \<Rightarrow> obj_ptrs vs | _ \<Rightarrow> [])
      | PIC_TYPE_BLOB \<Rightarrow> []
      | PIC_TYPE_ID \<Rightarrow>
          (case body ob of Id_obj inner env \<Rightarrow> [inner, env] | _ \<Rightarrow> [])
      | PIC_TYPE_ENV \<Rightarrow>
          (case body ob of
             Env_obj h up \<Rightarrow> concat (map (\<lambda>(k, v). [k, v]) h) @ opt_ptr up
           | _ \<Rightarrow> [])
      | PIC_TYPE_DATA \<Rightarrow>
          (case body ob of
             Data_obj p (Some owned) dtor \<Rightarrow> obj_ptrs owned
           | _ \<Rightarrow> [])
      | PIC_TYPE_DICT \<Rightarrow>
          (case body ob of
             Dict_obj h \<Rightarrow> concat (map (\<lambda>(k, v). obj_ptrs [k] @ obj_ptrs [v]) h)
           | _ \<Rightarrow> [])
      | PIC_TYPE_RECORD \<Rightarrow>
          (case body ob of
             Record_obj rtype datum \<Rightarrow> obj_ptrs [rtype] @ obj_ptrs [datum]
           | _ \<Rightarrow> [])
      | PIC_TYPE_SYMBOL \<Rightarrow>
          (case body ob of Symbol_obj str \<Rightarrow> [str] | _ \<Rightarrow> [])
      | PIC_TYPE_WEAK \<Rightarrow> []
      | PIC_TYPE_CP \<Rightarrow>
          (case body ob of
             Cp_obj prev cin cout \<Rightarrow> opt_ptr prev @ opt_ptr cin @ opt_ptr cout
           | _ \<Rightarrow> []))"

text \<open>
  \<^verbatim>\<open>gc_mark_object\<close> calls itself on the pointers of an object one after the other and jumps
  back to its head for the last one. The model keeps the pointers still to be visited in a
  list, the C call stack made explicit: an unmarked object is marked and its pointers are
  put in front of the list, so they and all they lead to are visited before the pointers
  that were pending, as the recursive calls do. (\<open>gc_mark_object_unfold\<close> below shows that
  the function satisfies the recursion of the C function.) The WEAK arm puts the object
  at the head of the chain. An address with no object behind it has nothing to trace.
\<close>

function gc_mark_objects ::
  "addr list \<Rightarrow> ('u, 'h) pic_state \<Rightarrow> ('u, 'h) pic_state" where
  "gc_mark_objects [] s = s"
| "gc_mark_objects (a # todo) s =
     (if is_marked s a then gc_mark_objects todo s
      else
        (case obj_at s a of
           None \<Rightarrow> gc_mark_objects todo (mark s a)
         | Some ob \<Rightarrow>
             if tt ob = PIC_TYPE_WEAK
             then gc_mark_objects todo ((mark s a)\<lparr>weaks := a # weaks s\<rparr>)
             else gc_mark_objects (trace_refs ob @ todo) (mark s a)))"
  by pat_completeness auto
termination
proof (relation "measures [\<lambda>(todo, s). card (fst ` set (objs s) - marks s), \<lambda>(todo, s). length todo]")
  show "wf (measures [\<lambda>(todo, s). card (fst ` set (objs s) - marks s), \<lambda>(todo, s). length todo])"
    by simp
next
  fix a :: addr and todo :: "addr list" and s :: "('u, 'h) pic_state"
  assume "is_marked s a"
  then show "((todo, s), a # todo, s) \<in>
      measures [\<lambda>(todo, s). card (fst ` set (objs s) - marks s), \<lambda>(todo, s). length todo]"
    by simp
next
  fix a :: addr and todo :: "addr list" and s :: "('u, 'h) pic_state"
  assume "\<not> is_marked s a" "obj_at s a = None"
  then have "a \<notin> fst ` set (objs s)"
    by (simp add: obj_at_def map_of_eq_None_iff)
  then have "fst ` set (objs s) - insert a (marks s) = fst ` set (objs s) - marks s"
    by auto
  then show "((todo, mark s a), a # todo, s) \<in>
      measures [\<lambda>(todo, s). card (fst ` set (objs s) - marks s), \<lambda>(todo, s). length todo]"
    by (simp add: mark_def)
next
  fix a :: addr and todo :: "addr list" and s :: "('u, 'h) pic_state" and ob :: object
  assume "\<not> is_marked s a" "obj_at s a = Some ob"
  then have "a \<in> fst ` set (objs s) - marks s"
    by (auto simp: obj_at_def is_marked_def dest!: map_of_SomeD intro: rev_image_eqI)
  then have "card (fst ` set (objs s) - insert a (marks s)) < card (fst ` set (objs s) - marks s)"
    by (intro psubset_card_mono) auto
  then show "((todo, (mark s a)\<lparr>weaks := a # weaks s\<rparr>), a # todo, s) \<in>
      measures [\<lambda>(todo, s). card (fst ` set (objs s) - marks s), \<lambda>(todo, s). length todo]"
    and "((trace_refs ob @ todo, mark s a), a # todo, s) \<in>
      measures [\<lambda>(todo, s). card (fst ` set (objs s) - marks s), \<lambda>(todo, s). length todo]"
    by (simp_all add: mark_def)
qed

definition gc_mark_object :: "('u, 'h) pic_state \<Rightarrow> addr \<Rightarrow> ('u, 'h) pic_state" where
  "gc_mark_object s a = gc_mark_objects [a] s"

definition gc_mark :: "('u, 'h) pic_state \<Rightarrow> pic_value \<Rightarrow> ('u, 'h) pic_state" where
  "gc_mark s v = (case v of Obj_val p \<Rightarrow> gc_mark_object s p | _ \<Rightarrow> s)"

text \<open>
  The equations of \<open>gc_mark_objects\<close> rewrite a call into a term that holds further calls;
  they are used by name.
\<close>

declare gc_mark_objects.simps(2) [simp del]

lemma gc_mark_objects_objs [simp]: "objs (gc_mark_objects todo s) = objs s"
  by (induction todo s rule: gc_mark_objects.induct)
     (auto simp: gc_mark_objects.simps(2) mark_def obj_at_def split: option.splits)

lemma gc_mark_objects_mono: "marks s \<subseteq> marks (gc_mark_objects todo s)"
  by (induction todo s rule: gc_mark_objects.induct)
     (auto simp: gc_mark_objects.simps(2) mark_def split: option.splits)

lemma gc_mark_objects_todo: "set todo \<subseteq> marks (gc_mark_objects todo s)"
proof (induction todo s rule: gc_mark_objects.induct)
  case (1 s)
  then show ?case by simp
next
  case (2 a todo s)
  show ?case
  proof (cases "is_marked s a")
    case True
    with 2 gc_mark_objects_mono[of s todo] show ?thesis
      by (auto simp: gc_mark_objects.simps(2) is_marked_def)
  next
    case False
    show ?thesis
    proof (cases "obj_at s a")
      case None
      with False 2 gc_mark_objects_mono[of "mark s a" todo] show ?thesis
        by (auto simp: gc_mark_objects.simps(2) mark_def)
    next
      case (Some ob)
      show ?thesis
      proof (cases "tt ob = PIC_TYPE_WEAK")
        case True
        with False Some 2(3) gc_mark_objects_mono[of "(mark s a)\<lparr>weaks := a # weaks s\<rparr>" todo]
        show ?thesis by (auto simp: gc_mark_objects.simps(2) mark_def)
      next
        case nw: False
        with False Some 2(4) gc_mark_objects_mono[of "mark s a" "trace_refs ob @ todo"]
        show ?thesis by (auto simp: gc_mark_objects.simps(2) mark_def)
      qed
    qed
  qed
qed

lemma gc_mark_objects_append:
  "gc_mark_objects (xs @ ys) s = gc_mark_objects ys (gc_mark_objects xs s)"
  by (induction xs s rule: gc_mark_objects.induct)
     (auto simp: gc_mark_objects.simps(2) split: option.splits)

subsection \<open>The weak-map loop of the mark phase\<close>

text \<open>
  The \<^verbatim>\<open>do ... while (j > 0)\<close> loop at the end of \<^verbatim>\<open>gc_mark_phase\<close>. \<open>weak_hash\<close> reads the
  hash table of a member of the chain. \<open>mark_weak_entries\<close> is the \<^verbatim>\<open>for\<close> loop over the slots
  of one table, \<open>mark_weak_chain\<close> the \<^verbatim>\<open>while (weak != NULL)\<close> loop over the chain from
  the head it had when the pass began (weak maps marked during the pass are linked in
  front of that head). The counter \<open>j\<close> is a \<^verbatim>\<open>size_t\<close>.
\<close>

definition weak_hash :: "('u, 'h) pic_state \<Rightarrow> addr \<Rightarrow> (addr \<times> pic_value) list" where
  "weak_hash s w =
     (case obj_at s w of
        Some ob \<Rightarrow> (case body ob of Weak_obj h \<Rightarrow> h | _ \<Rightarrow> [])
      | None \<Rightarrow> [])"

fun mark_weak_entries ::
  "(addr \<times> pic_value) list \<Rightarrow> size_t \<times> ('u, 'h) pic_state \<Rightarrow> size_t \<times> ('u, 'h) pic_state" where
  "mark_weak_entries [] (j, s) = (j, s)"
| "mark_weak_entries ((key, val) # es) (j, s) =
     (if is_marked s key then
        (case val of
           Obj_val p \<Rightarrow>
             if \<not> is_marked s p then mark_weak_entries es (j + 1, gc_mark s val)
             else mark_weak_entries es (j, s)
         | _ \<Rightarrow> mark_weak_entries es (j, s))
      else mark_weak_entries es (j, s))"

fun mark_weak_chain ::
  "addr list \<Rightarrow> size_t \<times> ('u, 'h) pic_state \<Rightarrow> size_t \<times> ('u, 'h) pic_state" where
  "mark_weak_chain [] js = js"
| "mark_weak_chain (w # ws) (j, s) =
     mark_weak_chain ws (mark_weak_entries (weak_hash s w) (j, s))"

definition weak_vals :: "(addr \<times> object) list \<Rightarrow> addr set" where
  "weak_vals os = {p. \<exists>a ob h k. (a, ob) \<in> set os \<and> body ob = Weak_obj h \<and> (k, Obj_val p) \<in> set h}"

lemma finite_weak_vals: "finite (weak_vals os)"
proof -
  have "weak_vals os \<subseteq>
      (\<Union>(a, ob) \<in> set os. case body ob of Weak_obj h \<Rightarrow> set (obj_ptrs (map snd h)) | _ \<Rightarrow> {})"
  proof
    fix p assume "p \<in> weak_vals os"
    then obtain a ob h k where *: "(a, ob) \<in> set os" "body ob = Weak_obj h" "(k, Obj_val p) \<in> set h"
      by (auto simp: weak_vals_def)
    have "\<And>vs. Obj_val p \<in> set vs \<Longrightarrow> p \<in> set (obj_ptrs vs)"
    proof -
      fix vs show "Obj_val p \<in> set vs \<Longrightarrow> p \<in> set (obj_ptrs vs)"
        by (induction vs rule: obj_ptrs.induct) auto
    qed
    with *(3) have "p \<in> set (obj_ptrs (map snd h))" by force
    with * show "p \<in> (\<Union>(a, ob) \<in> set os. case body ob of Weak_obj h \<Rightarrow> set (obj_ptrs (map snd h)) | _ \<Rightarrow> {})"
      by force
  qed
  moreover have "finite (\<Union>(a, ob) \<in> set os. case body ob of Weak_obj h \<Rightarrow> set (obj_ptrs (map snd h)) | _ \<Rightarrow> {})"
    by (auto split: payload.splits)
  ultimately show ?thesis by (rule finite_subset)
qed

lemma weak_hash_vals: "(k, Obj_val p) \<in> set (weak_hash s w) \<Longrightarrow> p \<in> weak_vals (objs s)"
proof -
  assume h: "(k, Obj_val p) \<in> set (weak_hash s w)"
  have "\<exists>ob. map_of (objs s) w = Some ob \<and> body ob = Weak_obj (weak_hash s w)"
  proof (cases "obj_at s w")
    case None
    with h show ?thesis by (simp add: weak_hash_def)
  next
    case (Some ob)
    with h show ?thesis by (cases "body ob") (simp_all add: weak_hash_def obj_at_def)
  qed
  then obtain ob where ob: "map_of (objs s) w = Some ob" "body ob = Weak_obj (weak_hash s w)"
    by blast
  from ob(1) have "(w, ob) \<in> set (objs s)" by (rule map_of_SomeD)
  with ob(2) h show ?thesis unfolding weak_vals_def by blast
qed

lemma gc_mark_objs [simp]: "objs (gc_mark s v) = objs s"
  by (simp add: gc_mark_def gc_mark_object_def split: pic_value.splits)

lemma gc_mark_mono: "marks s \<subseteq> marks (gc_mark s v)"
  using gc_mark_objects_mono[of s]
  by (auto simp: gc_mark_def gc_mark_object_def split: pic_value.splits)

lemma gc_mark_marks: "p \<in> marks (gc_mark s (Obj_val p))"
  using gc_mark_objects_todo[of "[p]" s]
  by (simp add: gc_mark_def gc_mark_object_def)

lemma mark_weak_entries_props:
  "mark_weak_entries es (j, s) = (j', s') \<Longrightarrow>
     objs s' = objs s \<and> marks s \<subseteq> marks s' \<and>
     (j' \<noteq> j \<longrightarrow> (\<exists>k p. (k, Obj_val p) \<in> set es \<and> p \<notin> marks s \<and> p \<in> marks s'))"
proof (induction es arbitrary: j s)
  case Nil
  then show ?case by simp
next
  case (Cons e es)
  obtain key val where e: "e = (key, val)" by (cases e)
  show ?case
  proof (cases "is_marked s key \<and> (\<exists>p. val = Obj_val p \<and> \<not> is_marked s p)")
    case True
    then obtain p where p: "val = Obj_val p" "\<not> is_marked s p" "is_marked s key" by auto
    with Cons.prems e have run: "mark_weak_entries es (j + 1, gc_mark s val) = (j', s')" by simp
    from Cons.IH[OF run]
    have ih: "objs s' = objs (gc_mark s val)" "marks (gc_mark s val) \<subseteq> marks s'" by auto
    show ?thesis
      using ih p e gc_mark_mono[of s val] gc_mark_marks[of p s] by (auto simp: is_marked_def)
  next
    case False
    then have run: "mark_weak_entries es (j, s) = (j', s')"
      using Cons.prems e by (auto split: pic_value.splits if_splits)
    from Cons.IH[OF run] show ?thesis by auto
  qed
qed

lemma mark_weak_chain_props:
  "mark_weak_chain ws (j, s) = (j', s') \<Longrightarrow>
     objs s' = objs s \<and> marks s \<subseteq> marks s' \<and>
     (j' \<noteq> j \<longrightarrow> (\<exists>p \<in> weak_vals (objs s). p \<notin> marks s \<and> p \<in> marks s'))"
proof (induction ws arbitrary: j s)
  case Nil
  then show ?case by simp
next
  case (Cons w ws)
  obtain j1 s1 where step: "mark_weak_entries (weak_hash s w) (j, s) = (j1, s1)"
    by (cases "mark_weak_entries (weak_hash s w) (j, s)")
  with Cons.prems have run: "mark_weak_chain ws (j1, s1) = (j', s')" by simp
  note a = mark_weak_entries_props[OF step] and b = Cons.IH[OF run]
  show ?case
  proof (intro conjI impI)
    show "objs s' = objs s" using a b by simp
    show "marks s \<subseteq> marks s'" using a b by blast
    assume ne: "j' \<noteq> j"
    show "\<exists>p \<in> weak_vals (objs s). p \<notin> marks s \<and> p \<in> marks s'"
    proof (cases "j1 = j")
      case True
      with ne b obtain p where "p \<in> weak_vals (objs s1)" "p \<notin> marks s1" "p \<in> marks s'" by auto
      with a show ?thesis by auto
    next
      case False
      with a obtain k p where "(k, Obj_val p) \<in> set (weak_hash s w)" "p \<notin> marks s" "p \<in> marks s1"
        by auto
      with b weak_hash_vals[of k p s w] show ?thesis by auto
    qed
  qed
qed

lemma mark_weak_chain_decreases:
  assumes run: "mark_weak_chain (weaks s) (0, s) = (j, s')" and "j \<noteq> 0"
  shows "card (weak_vals (objs s') - marks s') < card (weak_vals (objs s) - marks s)"
proof -
  from mark_weak_chain_props[OF run] \<open>j \<noteq> 0\<close>
  obtain p where p: "objs s' = objs s" "marks s \<subseteq> marks s'"
      "p \<in> weak_vals (objs s)" "p \<notin> marks s" "p \<in> marks s'" by auto
  then have "weak_vals (objs s) - marks s' \<subset> weak_vals (objs s) - marks s" by auto
  then have "card (weak_vals (objs s) - marks s') < card (weak_vals (objs s) - marks s)"
    by (rule psubset_card_mono[rotated]) (simp add: finite_weak_vals)
  with p show ?thesis by simp
qed

function gc_mark_weaks :: "('u, 'h) pic_state \<Rightarrow> ('u, 'h) pic_state" where
  "gc_mark_weaks s =
     (case mark_weak_chain (weaks s) (0, s) of
        (j, s') \<Rightarrow> if j > 0 then gc_mark_weaks s' else s')"
  by pat_completeness auto
termination
proof (relation "measure (\<lambda>s. card (weak_vals (objs s) - marks s))")
  show "wf (measure (\<lambda>s. card (weak_vals (objs s) - marks s)))" by simp
next
  fix s s' :: "('u, 'h) pic_state" and j :: size_t
  assume "(j, s') = mark_weak_chain (weaks s) (0, s)" "0 < j"
  then have "mark_weak_chain (weaks s) (0, s) = (j, s')" "j \<noteq> 0" by auto
  then show "(s', s) \<in> measure (\<lambda>s. card (weak_vals (objs s) - marks s))"
    by (simp add: mark_weak_chain_decreases)
qed

text \<open>
  \<^verbatim>\<open>gc_mark_phase\<close>: the assertion, the roots in the order of the source, then the weak-map
  loop. A loop that calls \<^verbatim>\<open>gc_mark_object\<close> on one root after the other is
  \<open>gc_mark_objects\<close> on the list of these roots (\<open>gc_mark_objects_foldl\<close> below).
\<close>

definition gc_mark_phase :: "('u, 'h) pic_state \<Rightarrow> error + ('u, 'h) pic_state" where
  "gc_mark_phase s0 =
     (if weaks s0 \<noteq> [] then Inl (Assertion_failed ''pic->heap->weaks == NULL'')
      else
        (let s = gc_mark_objects (opt_ptr (cp s0)) s0;
             s = gc_mark_objects (obj_ptrs (stack s)) s;
             s = gc_mark_objects (concat (map opt_ptr (callinfo s))) s;
             s = gc_mark_objects (arena_roots s) s;
             s = gc_mark_objects (concat (ireps s)) s;
             s = gc_mark s (globals s);
             s = gc_mark s (macros s);
             s = gc_mark s (err s);
             s = gc_mark s (features s);
             s = gc_mark_objects
                   (concat (map (\<lambda>(name, env, exports). [name, env, exports]) (ltable s))) s
         in Inr (gc_mark_weaks s)))"

subsection \<open>The sweep phase\<close>

text \<open>
  \<^verbatim>\<open>gc_finalize_object\<close>, which the back-end's \<^verbatim>\<open>gc_sweep_page\<close> calls on an unmarked object.
  \<^verbatim>\<open>pic_free\<close> is the shim's; the calls that leave \<^verbatim>\<open>gc.c\<close> are recorded in \<open>fin_calls\<close>.
\<close>

definition fin_call :: "('u, 'h) pic_state \<Rightarrow> fin_call \<Rightarrow> ('u, 'h) pic_state" where
  "fin_call s c = s\<lparr>fin_calls := fin_calls s @ [c]\<rparr>"

definition gc_finalize_object :: "('u, 'h) pic_state \<Rightarrow> addr \<Rightarrow> ('u, 'h) pic_state" where
  "gc_finalize_object s a =
     (case obj_at s a of
        None \<Rightarrow> s
      | Some ob \<Rightarrow>
         (case tt ob of
            PIC_TYPE_VECTOR \<Rightarrow> (case body ob of Vector_obj p vs \<Rightarrow> pic_free s p | _ \<Rightarrow> s)
          | PIC_TYPE_BLOB \<Rightarrow> (case body ob of Blob_obj p \<Rightarrow> pic_free s p | _ \<Rightarrow> s)
          | PIC_TYPE_STRING \<Rightarrow>
              (case body ob of String_obj rope \<Rightarrow> fin_call s (Rope_decref rope) | _ \<Rightarrow> s)
          | PIC_TYPE_ENV \<Rightarrow> fin_call s (Kh_destroy a)
          | PIC_TYPE_DATA \<Rightarrow>
              (case body ob of
                 Data_obj p owned dtor \<Rightarrow> if dtor then fin_call s (Dtor p) else s
               | _ \<Rightarrow> s)
          | PIC_TYPE_DICT \<Rightarrow> fin_call s (Kh_destroy a)
          | PIC_TYPE_SYMBOL \<Rightarrow> s
          | PIC_TYPE_WEAK \<Rightarrow> fin_call s (Kh_destroy a)
          | PIC_TYPE_IREP \<Rightarrow>
              (case body ob of Irep_obj irep cxt \<Rightarrow> fin_call s (Irep_decref irep) | _ \<Rightarrow> s)
          | PIC_TYPE_PAIR \<Rightarrow> s
          | PIC_TYPE_CXT \<Rightarrow> s
          | PIC_TYPE_PORT \<Rightarrow> s
          | PIC_TYPE_ERROR \<Rightarrow> s
          | PIC_TYPE_ID \<Rightarrow> s
          | PIC_TYPE_RECORD \<Rightarrow> s
          | PIC_TYPE_CP \<Rightarrow> s
          | PIC_TYPE_FUNC \<Rightarrow> s))"

text \<open>
  The first loop of \<^verbatim>\<open>gc_sweep_phase\<close>: the head of the chain loses every slot whose key
  is not marked (\<^verbatim>\<open>kh_del\<close>), then the chain moves on to \<^verbatim>\<open>prev\<close>, until it is empty.
\<close>

definition weak_purge :: "('u, 'h) pic_state \<Rightarrow> addr \<Rightarrow> ('u, 'h) pic_state" where
  "weak_purge s w =
     s\<lparr>objs := AList.map_entry w
         (\<lambda>ob. case body ob of
                  Weak_obj h \<Rightarrow> ob\<lparr>body := Weak_obj (filter (\<lambda>(key, val). is_marked s key) h)\<rparr>
                | _ \<Rightarrow> ob)
         (objs s)\<rparr>"

function gc_sweep_weaks :: "('u, 'h) pic_state \<Rightarrow> ('u, 'h) pic_state" where
  "gc_sweep_weaks s =
     (case weaks s of
        [] \<Rightarrow> s
      | w # ws \<Rightarrow> gc_sweep_weaks ((weak_purge s w)\<lparr>weaks := ws\<rparr>))"
  by pat_completeness auto
termination
  by (relation "measure (\<lambda>s. length (weaks s))") (auto simp: weak_purge_def)

text \<open>The second loop: a slot of the oblist goes when its symbol is not NULL and not marked.\<close>

definition gc_sweep_oblist :: "('u, 'h) pic_state \<Rightarrow> ('u, 'h) pic_state" where
  "gc_sweep_oblist s =
     s\<lparr>oblist := filter (\<lambda>(name, sym). \<not> (sym \<noteq> None \<and> \<not> is_marked s (the sym))) (oblist s)\<rparr>"

text \<open>The third loop, over the page list: \<open>inuse\<close> and \<open>units\<close> (\<^verbatim>\<open>total\<close> in the source) are \<^verbatim>\<open>size_t\<close> sums.\<close>

fun gc_sweep_pages ::
  "('u, 'h) backend \<Rightarrow> nat list \<Rightarrow> size_t \<times> size_t \<times> ('u, 'h) pic_state \<Rightarrow>
     size_t \<times> size_t \<times> ('u, 'h) pic_state" where
  "gc_sweep_pages be [] r = r"
| "gc_sweep_pages be (page # ps) (inuse, units, s) =
     (case gc_sweep_page be s page of
        (n, s') \<Rightarrow> gc_sweep_pages be ps (inuse + n, units + PAGE_UNITS be, s'))"

definition gc_sweep_phase ::
  "('u, 'h) backend \<Rightarrow> ('u, 'h) pic_state \<Rightarrow> error + ('u, 'h) pic_state" where
  "gc_sweep_phase be s =
     (let s1 = gc_sweep_weaks s;
          s2 = gc_sweep_oblist s1
      in case gc_sweep_pages be (pages s2) (0, 0, s2) of
           (inuse, units, s3) \<Rightarrow>
             if PIC_PAGE_REQUEST_THRESHOLD be units \<le> inuse then heap_morecore be s3
             else Inr s3)"

subsection \<open>The entry points\<close>

definition pic_gc ::
  "('u, 'h) backend \<Rightarrow> ('u, 'h) pic_state \<Rightarrow> error + ('u, 'h) pic_state" where
  "pic_gc be s =
     (if \<not> gc_enable s then Inr s
      else
        (case gc_mark_phase (gc_init be s) of
           Inl e \<Rightarrow> Inl e
         | Inr s' \<Rightarrow> gc_sweep_phase be s'))"

text \<open>
  The two header writes at the end of \<^verbatim>\<open>pic_obj_alloc_unsafe\<close>: the mark bit is cleared
  unless the bitmap back-end is compiled in, and the tag is stored. The payload of a new
  cell is not written here.
\<close>

definition init_header ::
  "('u, 'h) backend \<Rightarrow> ('u, 'h) pic_state \<Rightarrow> addr \<Rightarrow> pic_type \<Rightarrow> ('u, 'h) pic_state" where
  "init_header be s p ty =
     (let s1 = (if \<not> PIC_USE_BITMAPGC be then s\<lparr>marks := marks s - {p}\<rparr> else s)
      in s1\<lparr>objs := AList.update p
                (case obj_at s1 p of
                   None \<Rightarrow> \<lparr>tt = ty, body = No_payload\<rparr>
                 | Some ob \<Rightarrow> ob\<lparr>tt := ty\<rparr>)
                (objs s1)\<rparr>)"

definition pic_obj_alloc_unsafe ::
  "('u, 'h) backend \<Rightarrow> ('u, 'h) pic_state \<Rightarrow> size_t \<Rightarrow> pic_type \<Rightarrow>
     error + (addr \<times> ('u, 'h) pic_state)" where
  "pic_obj_alloc_unsafe be s n ty =
     (case (if GC_STRESS be then pic_gc be s else Inr s) of
        Inl e \<Rightarrow> Inl e
      | Inr s0 \<Rightarrow>
         (case heap_alloc be s0 n of
            (Some p, s1) \<Rightarrow> Inr (p, init_header be s1 p ty)
          | (None, s1) \<Rightarrow>
             (case pic_gc be s1 of
                Inl e \<Rightarrow> Inl e
              | Inr s2 \<Rightarrow>
                 (case heap_alloc be s2 n of
                    (Some p, s3) \<Rightarrow> Inr (p, init_header be s3 p ty)
                  | (None, s3) \<Rightarrow>
                     (case heap_morecore be s3 of
                        Inl e \<Rightarrow> Inl e
                      | Inr s4 \<Rightarrow>
                         (case heap_alloc be s4 n of
                            (Some p, s5) \<Rightarrow> Inr (p, init_header be s5 p ty)
                          | (None, s5) \<Rightarrow> pic_panic ''GC memory exhausted''))))))"

definition pic_obj_alloc ::
  "('u, 'h) backend \<Rightarrow> ('u, 'h) pic_state \<Rightarrow> size_t \<Rightarrow> pic_type \<Rightarrow>
     error + (addr \<times> ('u, 'h) pic_state)" where
  "pic_obj_alloc be s n ty =
     (case pic_obj_alloc_unsafe be s n ty of
        Inl e \<Rightarrow> Inl e
      | Inr (p, s') \<Rightarrow> (case gc_protect s' p of Inl e \<Rightarrow> Inl e | Inr s'' \<Rightarrow> Inr (p, s'')))"

subsection \<open>Interning a symbol\<close>

text \<open>
  Modelled from the spec: \<^verbatim>\<open>pic_intern\<close> and the lookup of a name in the oblist, the
  interned-symbol table; they are not in \<^verbatim>\<open>gc.c\<close>. The spec says that a symbol refers to its
  name string and has its name interned in the oblist, and that the lookup of a name whose
  symbol was collected yields a fresh symbol object. The lookup of a name answers the
  symbol of its entry. Interning a name answers that symbol when there is one; otherwise
  it allocates a symbol object with \<^verbatim>\<open>pic_obj_alloc\<close>, makes it refer to the name string and
  enters it under the name. The size of a symbol object is an argument.
\<close>

definition oblist_lookup :: "('u, 'h) pic_state \<Rightarrow> string \<Rightarrow> addr option" where
  "oblist_lookup s name = (case map_of (oblist s) name of Some (Some p) \<Rightarrow> Some p | _ \<Rightarrow> None)"

definition pic_intern ::
  "('u, 'h) backend \<Rightarrow> ('u, 'h) pic_state \<Rightarrow> size_t \<Rightarrow> string \<Rightarrow> addr \<Rightarrow>
     error + (addr \<times> ('u, 'h) pic_state)" where
  "pic_intern be s n name str =
     (case oblist_lookup s name of
        Some p \<Rightarrow> Inr (p, s)
      | None \<Rightarrow>
         (case pic_obj_alloc be s n PIC_TYPE_SYMBOL of
            Inl e \<Rightarrow> Inl e
          | Inr (a, s') \<Rightarrow>
              Inr (a, s'\<lparr>objs := AList.update a \<lparr>tt = PIC_TYPE_SYMBOL, body = Symbol_obj str\<rparr> (objs s'),
                          oblist := AList.update name (Some a) (oblist s')\<rparr>)))"

declare gc_mark_weaks.simps [simp del]
declare gc_sweep_weaks.simps [simp del]

subsection \<open>What the mark phase can reach\<close>

text \<open>
  The roots of \<^verbatim>\<open>gc_mark_phase\<close>, in the order in which it marks them: the checkpoint, the
  stack, the callinfo records, the arena, the irep stack, the four global values and the
  library table.
\<close>

definition gc_roots :: "('u, 'h) pic_state \<Rightarrow> addr list" where
  "gc_roots s =
     opt_ptr (cp s) @ obj_ptrs (stack s) @ concat (map opt_ptr (callinfo s)) @ arena_roots s @
     concat (ireps s) @ obj_ptrs [globals s] @ obj_ptrs [macros s] @ obj_ptrs [err s] @
     obj_ptrs [features s] @
     concat (map (\<lambda>(name, env, exports). [name, env, exports]) (ltable s))"

text \<open>
  An object is reached from a root along the pointers that the switch of \<^verbatim>\<open>gc_mark_object\<close>
  follows (it follows none out of a weak map), and through a slot of a reached weak map
  whose key is reached: then the value of the slot is. The set \<open>X\<close> names slots, by weak
  map and key, that are not to be used: \<open>reach s {(w, k)} k\<close> says that \<open>k\<close> is reached
  without its own slot in \<open>w\<close>.
\<close>

inductive reach :: "('u, 'h) pic_state \<Rightarrow> (addr \<times> addr) set \<Rightarrow> addr \<Rightarrow> bool"
  for s :: "('u, 'h) pic_state" and X :: "(addr \<times> addr) set" where
  reach_root: "a \<in> set (gc_roots s) \<Longrightarrow> reach s X a"
| reach_ref: "reach s X a \<Longrightarrow> obj_at s a = Some ob \<Longrightarrow> b \<in> set (trace_refs ob) \<Longrightarrow> reach s X b"
| reach_weak: "reach s X w \<Longrightarrow> obj_at s w = Some ob \<Longrightarrow> tt ob = PIC_TYPE_WEAK \<Longrightarrow>
     (k, Obj_val p) \<in> set (weak_hash s w) \<Longrightarrow> (w, k) \<notin> X \<Longrightarrow> reach s X k \<Longrightarrow> reach s X p"

definition reachable :: "('u, 'h) pic_state \<Rightarrow> addr set" where
  "reachable s = {a. reach s {} a}"

text \<open>
  The values held by weak maps are addresses of objects: not NULL, and below \<open>2 ^ 64\<close>.
  The counter of the weak-map loop is a \<^verbatim>\<open>size_t\<close> that goes up by one for each value marked
  in a pass; with this it cannot come back to zero in a pass that marked something.
\<close>

definition ptrs_ok :: "('u, 'h) pic_state \<Rightarrow> bool" where
  "ptrs_ok s \<longleftrightarrow> (\<forall>p \<in> weak_vals (objs s). 0 < p \<and> p < 2 ^ 64)"

text \<open>
  The invariants of the mark phase: the pointers of marked objects are marked or still
  pending (\<open>closed_upto\<close>); the chain holds the marked weak maps (\<open>chain_ok\<close>); a set is
  closed under the pointers of its objects (\<open>ref_closed\<close>); in a marking state of a
  collection started in \<open>s0\<close> the roots are marked and only reachable objects are
  (\<open>mark_inv\<close>); the value of a slot with a marked key is marked, in every weak map of the
  chain (\<open>eph_closed\<close>).
\<close>

definition closed_upto :: "addr set \<Rightarrow> ('u, 'h) pic_state \<Rightarrow> bool" where
  "closed_upto T s \<longleftrightarrow>
     (\<forall>a \<in> marks s. \<forall>ob. obj_at s a = Some ob \<longrightarrow> set (trace_refs ob) \<subseteq> marks s \<union> T)"

definition chain_ok :: "('u, 'h) pic_state \<Rightarrow> bool" where
  "chain_ok s \<longleftrightarrow>
     set (weaks s) = {a \<in> marks s. \<exists>ob. obj_at s a = Some ob \<and> tt ob = PIC_TYPE_WEAK}"

definition ref_closed :: "('u, 'h) pic_state \<Rightarrow> addr set \<Rightarrow> bool" where
  "ref_closed s R \<longleftrightarrow> (\<forall>a \<in> R. \<forall>ob. obj_at s a = Some ob \<longrightarrow> set (trace_refs ob) \<subseteq> R)"

definition mark_inv :: "('u, 'h) pic_state \<Rightarrow> ('u, 'h) pic_state \<Rightarrow> bool" where
  "mark_inv s0 s \<longleftrightarrow>
     objs s = objs s0 \<and> set (gc_roots s0) \<subseteq> marks s \<and> marks s \<subseteq> reachable s0 \<and>
     chain_ok s \<and> closed_upto {} s"

definition eph_closed :: "('u, 'h) pic_state \<Rightarrow> bool" where
  "eph_closed s \<longleftrightarrow>
     (\<forall>w \<in> set (weaks s). \<forall>k p. (k, Obj_val p) \<in> set (weak_hash s w) \<longrightarrow> k \<in> marks s \<longrightarrow> p \<in> marks s)"

text \<open>What the first loop of the sweep does to the table of a weak map, given the mark set.\<close>

definition purge_hash :: "addr set \<Rightarrow> object \<Rightarrow> object" where
  "purge_hash M ob =
     (case body ob of
        Weak_obj h \<Rightarrow> ob\<lparr>body := Weak_obj (filter (\<lambda>(key, val). key \<in> M) h)\<rparr>
      | _ \<Rightarrow> ob)"

text \<open>
  The back-end functions get the instance, so the model lets them change any field. A
  back-end that manages pages and mark bits leaves the symbol table as it is.
\<close>

definition oblist_untouched :: "('u, 'h) backend \<Rightarrow> bool" where
  "oblist_untouched be \<longleftrightarrow>
     (\<forall>s. oblist (gc_init be s) = oblist s) \<and>
     (\<forall>s page. oblist (snd (gc_sweep_page be s page)) = oblist s) \<and>
     (\<forall>s s'. heap_morecore be s = Inr s' \<longrightarrow> oblist s' = oblist s)"

subsection \<open>Clients of the arena, and example states\<close>

text \<open>
  A client of the arena protects values and opens scopes: \<open>Scope ops\<close> is
  \<^verbatim>\<open>size_t m = pic_enter(pic); ...; pic_leave(pic, m);\<close> around the operations \<open>ops\<close>, which
  may hold scopes of their own. \<open>pushes\<close> counts the objects a client protects.
\<close>

datatype arena_op = Protect pic_value | Scope "arena_op list"

fun run_op :: "('u, 'h) pic_state \<Rightarrow> arena_op \<Rightarrow> error + ('u, 'h) pic_state"
  and run_ops :: "('u, 'h) pic_state \<Rightarrow> arena_op list \<Rightarrow> error + ('u, 'h) pic_state" where
  "run_op s (Protect v) = (case pic_protect s v of Inl e \<Rightarrow> Inl e | Inr (r, s') \<Rightarrow> Inr s')"
| "run_op s (Scope ops) =
     (let m = pic_enter s in
      case run_ops s ops of Inl e \<Rightarrow> Inl e | Inr s' \<Rightarrow> Inr (pic_leave s' m))"
| "run_ops s [] = Inr s"
| "run_ops s (x # xs) = (case run_op s x of Inl e \<Rightarrow> Inl e | Inr s' \<Rightarrow> run_ops s' xs)"

fun pushes :: "arena_op \<Rightarrow> nat" and pushes_list :: "arena_op list \<Rightarrow> nat" where
  "pushes (Protect v) = (if pic_obj_p v then 1 else 0)"
| "pushes (Scope ops) = pushes_list ops"
| "pushes_list [] = 0"
| "pushes_list (x # xs) = pushes x + pushes_list xs"

text \<open>
  An example host allocator: \<^verbatim>\<open>userdata\<close> is the number of bytes it may still hand out; a
  request of size 0 frees and returns NULL. \<open>state0\<close> is an instance with no arena, no page
  and no object; \<open>state1\<close> is \<open>state0\<close> after \<^verbatim>\<open>pic_protect\<close> of the object at address 7.
\<close>

definition budget_allocf :: "nat \<Rightarrow> ptr \<Rightarrow> size_t \<Rightarrow> ptr \<times> nat" where
  "budget_allocf avail p n =
     (if n = 0 then (NULL, avail)
      else if unat n \<le> avail then (Suc p, avail - unat n)
      else (NULL, avail))"

definition state0 :: "(nat, (addr \<times> nat) list) pic_state" where
  "state0 =
     \<lparr>allocf = budget_allocf, userdata = 4096, mem = (\<lambda>p. None),
      arena_ptr = NULL, arena = (\<lambda>i. 0), arena_size = 0, arena_idx = 0,
      gc_enable = True, objs = [], marks = {}, weaks = [], pages = [], heap_priv = [],
      oblist = [], cp = None, stack = [], callinfo = [], ireps = [],
      globals = Nil_val, macros = Nil_val, err = Nil_val, features = Nil_val,
      ltable = [], fin_calls = []\<rparr>"

definition state1 :: "(nat, (addr \<times> nat) list) pic_state" where
  "state1 = state0\<lparr>arena_ptr := 1, arena := (\<lambda>i. 0)(0 := 7), arena_size := 1, arena_idx := 1,
                   userdata := 4088\<rparr>"

definition prog1 :: "arena_op list" where
  "prog1 = [Protect (Obj_val 8), Scope [Protect (Int_val 5), Protect (Obj_val 9)], Protect (Obj_val 10)]"

text \<open>
  Modelled from the spec: an example back-end for the example states, after the bitmap
  back-end of the spec (a page is a run of fixed-size units, an allocation is the first run
  of free units that fits, a sweep finalizes and frees the unmarked objects of the page,
  resets the marks of the others and returns their units, \<^verbatim>\<open>morecore\<close> asks the allocator for
  one more page). A page has 4 units of 16 bytes; page \<open>k\<close> holds the addresses \<open>4k\<close> to
  \<open>4k + 3\<close>; the private data are the allocated cells with their sizes in units.
  \<open>ex_bitmap_backend\<close> differs in \<^verbatim>\<open>gc_init\<close>, which clears all mark bits.
\<close>

definition ex_units :: "size_t \<Rightarrow> nat" where
  "ex_units n = max 1 ((unat n + 15) div 16)"

definition ex_fits :: "(addr \<times> nat) list \<Rightarrow> nat \<Rightarrow> nat \<times> addr \<Rightarrow> bool" where
  "ex_fits cells need = (\<lambda>(page, a).
     a + need \<le> 4 * page + 4 \<and> list_all (\<lambda>(c, u). a + need \<le> c \<or> c + u \<le> a) cells)"

definition ex_heap_alloc ::
  "(nat, (addr \<times> nat) list) pic_state \<Rightarrow> size_t \<Rightarrow>
     addr option \<times> (nat, (addr \<times> nat) list) pic_state" where
  "ex_heap_alloc s n =
     (let need = ex_units n;
          slots = concat (map (\<lambda>page. map (\<lambda>k. (page, 4 * page + k)) [0, 1, 2, 3]) (pages s))
      in case find (ex_fits (heap_priv s) need) slots of
           None \<Rightarrow> (None, s)
         | Some (page, a) \<Rightarrow> (Some a, s\<lparr>heap_priv := (a, need) # heap_priv s\<rparr>))"

definition ex_heap_morecore ::
  "(nat, (addr \<times> nat) list) pic_state \<Rightarrow> error + (nat, (addr \<times> nat) list) pic_state" where
  "ex_heap_morecore s =
     (case pic_malloc s 64 of
        Inl e \<Rightarrow> Inl e
      | Inr (p, s') \<Rightarrow> Inr (s'\<lparr>pages := Suc (fold max (pages s') 0) # pages s'\<rparr>))"

fun ex_sweep_cells ::
  "(addr \<times> nat) list \<Rightarrow> size_t \<times> (nat, (addr \<times> nat) list) pic_state \<Rightarrow>
     size_t \<times> (nat, (addr \<times> nat) list) pic_state" where
  "ex_sweep_cells [] r = r"
| "ex_sweep_cells ((a, u) # cs) (alive, s) =
     (if is_marked s a
      then ex_sweep_cells cs (alive + of_nat u, s\<lparr>marks := marks s - {a}\<rparr>)
      else ex_sweep_cells cs
             (alive, (gc_finalize_object s a)
                       \<lparr>objs := AList.delete a (objs s),
                        heap_priv := removeAll (a, u) (heap_priv s)\<rparr>))"

definition ex_gc_sweep_page ::
  "(nat, (addr \<times> nat) list) pic_state \<Rightarrow> nat \<Rightarrow> size_t \<times> (nat, (addr \<times> nat) list) pic_state" where
  "ex_gc_sweep_page s page =
     ex_sweep_cells (filter (\<lambda>(a, u). 4 * page \<le> a \<and> a < 4 * page + 4) (heap_priv s)) (0, s)"

definition ex_backend :: "(nat, (addr \<times> nat) list) backend" where
  "ex_backend =
     \<lparr>gc_init = (\<lambda>s. s), heap_alloc = ex_heap_alloc, heap_morecore = ex_heap_morecore,
      gc_sweep_page = ex_gc_sweep_page, PAGE_UNITS = 4,
      PIC_PAGE_REQUEST_THRESHOLD = (\<lambda>units. units * 77 div 100),
      PIC_USE_BITMAPGC = False, GC_STRESS = False\<rparr>"

definition ex_bitmap_backend :: "(nat, (addr \<times> nat) list) backend" where
  "ex_bitmap_backend = ex_backend\<lparr>gc_init := (\<lambda>s. s\<lparr>marks := {}\<rparr>), PIC_USE_BITMAPGC := True\<rparr>"

text \<open>
  Example states with one page: \<open>st_garbage\<close> holds one unreachable pair that fills the page,
  \<open>st_live\<close> a pair of two units protected in the arena, \<open>st_full\<close> the same pair filling
  the page.
\<close>

definition pair0 :: object where
  "pair0 = \<lparr>tt = PIC_TYPE_PAIR, body = Pair_obj Nil_val Nil_val\<rparr>"

definition st_garbage :: "(nat, (addr \<times> nat) list) pic_state" where
  "st_garbage = state0\<lparr>pages := [1], objs := [(4, pair0)], heap_priv := [(4, 4)]\<rparr>"

definition st_live :: "(nat, (addr \<times> nat) list) pic_state" where
  "st_live = state0\<lparr>pages := [1], objs := [(4, pair0)], heap_priv := [(4, 2)],
                    arena_ptr := 1, arena := (\<lambda>i. 0)(0 := 4), arena_size := 1, arena_idx := 1\<rparr>"

definition st_full :: "(nat, (addr \<times> nat) list) pic_state" where
  "st_full = st_live\<lparr>heap_priv := [(4, 4)]\<rparr>"

text \<open>
  \<open>st_weak\<close> has three pages. The weak map at 8 and the string at 9 are in the arena, the
  symbol at 16 is the value of \<^verbatim>\<open>globals\<close>. The weak map has a chain of slots
  \<open>9 \<mapsto> 10\<close>, \<open>10 \<mapsto> 11\<close>, \<open>11 \<mapsto> 12\<close>, stored in the opposite order so that a pass marks one
  value only, and a slot \<open>13 \<mapsto> 14\<close> whose key nothing refers to. Three names are interned:
  one for the symbol at 14, one with an empty slot, one for the symbol at 16.
\<close>

definition str_obj :: "nat \<Rightarrow> object" where
  "str_obj r = \<lparr>tt = PIC_TYPE_STRING, body = String_obj r\<rparr>"

definition sym_obj :: "addr \<Rightarrow> object" where
  "sym_obj a = \<lparr>tt = PIC_TYPE_SYMBOL, body = Symbol_obj a\<rparr>"

definition weak_obj :: "(addr \<times> pic_value) list \<Rightarrow> object" where
  "weak_obj h = \<lparr>tt = PIC_TYPE_WEAK, body = Weak_obj h\<rparr>"

definition st_weak :: "(nat, (addr \<times> nat) list) pic_state" where
  "st_weak = state0
     \<lparr>pages := [4, 3, 2],
      heap_priv := [(8, 1), (9, 1), (10, 1), (11, 1), (12, 1), (13, 1), (14, 1), (15, 1),
                    (16, 1), (17, 1)],
      objs := [(8, weak_obj [(11, Obj_val 12), (10, Obj_val 11), (9, Obj_val 10), (13, Obj_val 14)]),
               (9, str_obj 2), (10, str_obj 3), (11, str_obj 4), (12, pair0),
               (13, str_obj 5), (14, sym_obj 15), (15, str_obj 6),
               (16, sym_obj 17), (17, str_obj 7)],
      arena_ptr := 2, arena := (\<lambda>i. 0)(0 := 8, 1 := 9), arena_size := 3, arena_idx := 2,
      globals := Obj_val 16,
      oblist := [(''foo'', Some 14), (''bar'', None), (''baz'', Some 16)]\<rparr>"

text \<open>What the collection of \<open>st_weak\<close> with the example back-end returns.\<close>

definition st_weak_swept :: "(nat, (addr \<times> nat) list) pic_state" where
  "st_weak_swept = st_weak
     \<lparr>objs := [(8, weak_obj [(11, Obj_val 12), (10, Obj_val 11), (9, Obj_val 10)]),
              (9, str_obj 2), (10, str_obj 3), (11, str_obj 4), (12, pair0),
              (16, sym_obj 17), (17, str_obj 7)],
      marks := {}, weaks := [],
      heap_priv := [(8, 1), (9, 1), (10, 1), (11, 1), (12, 1), (16, 1), (17, 1)],
      oblist := [(''bar'', None), (''baz'', Some 16)],
      fin_calls := [Rope_decref 5, Rope_decref 6]\<rparr>"

text \<open>
  \<open>st_dead\<close> has one page: a weak map at 8 that nothing refers to, with a slot \<open>9 \<mapsto> 10\<close>; its
  key, the string at 9, is in the arena; its value, the pair at 10, is referred to by the
  slot only. \<open>st_dead_swept\<close> is what the collection with the example back-end returns.
\<close>

definition st_dead :: "(nat, (addr \<times> nat) list) pic_state" where
  "st_dead = state0
     \<lparr>pages := [2], heap_priv := [(8, 1), (9, 1), (10, 1)],
      objs := [(8, weak_obj [(9, Obj_val 10)]), (9, str_obj 1), (10, pair0)],
      arena_ptr := 1, arena := (\<lambda>i. 0)(0 := 9), arena_size := 1, arena_idx := 1\<rparr>"

definition st_dead_swept :: "(nat, (addr \<times> nat) list) pic_state" where
  "st_dead_swept = st_dead
     \<lparr>objs := [(9, str_obj 1)], marks := {}, heap_priv := [(9, 1)], oblist := [],
      fin_calls := [Kh_destroy 8]\<rparr>"

section \<open>Properties\<close>

subsection \<open>The arena\<close>

lemma grow_request_nonzero: "sizeof_obj_ptr * (n * 2 + 1) \<noteq> 0"
proof
  assume z: "sizeof_obj_ptr * (n * 2 + 1) = 0"
  have "push_bit 3 (n * 2 + 1) = sizeof_obj_ptr * (n * 2 + 1)"
    by (simp add: push_bit_eq_mult sizeof_obj_ptr_def)
  with z have "push_bit 3 (n * 2 + 1) = (0 :: size_t)" by simp
  then have "\<not> bit (push_bit 3 (n * 2 + 1) :: size_t) 3" by simp
  then have "\<not> bit (n * 2 + 1) 0" by (simp add: bit_push_bit_iff)
  then show False by (simp add: bit_0)
qed

lemma pic_realloc_cases:
  "pic_realloc s p0 n =
     (let (p, u) = allocf s (userdata s) p0 n in
      if p = NULL \<and> n \<noteq> 0 then Inl (Panic ''memory exhausted'')
      else Inr (p, s\<lparr>userdata := u\<rparr>))"
  by (simp add: pic_realloc_def pic_panic_def Let_def word_greater_zero_iff split: prod.splits)

lemma gc_protect_room:
  "arena_idx s < arena_size s \<Longrightarrow>
     gc_protect s p = Inr (s\<lparr>arena := (arena s)(unat (arena_idx s) := p),
                            arena_idx := arena_idx s + 1\<rparr>)"
  by (simp add: gc_protect_def Let_def not_le[symmetric])

lemma gc_protect_grow:
  "arena_size s \<le> arena_idx s \<Longrightarrow>
     gc_protect s p =
       (let n' = arena_size s * 2 + 1;
            (q, u) = allocf s (userdata s) (arena_ptr s) (sizeof_obj_ptr * n')
        in if q = NULL then Inl (Panic ''memory exhausted'')
           else Inr (s\<lparr>userdata := u, arena_ptr := q, arena_size := n',
                       arena := (arena s)(unat (arena_idx s) := p),
                       arena_idx := arena_idx s + 1\<rparr>))"
  by (simp add: gc_protect_def pic_realloc_cases Let_def grow_request_nonzero split: prod.splits)

lemma double_plus_one: "unat (n :: size_t) < 2 ^ 63 \<Longrightarrow> unat (n * 2 + 1) = 2 * unat n + 1"
proof -
  assume "unat n < 2 ^ 63"
  then have "unat n * 2 + 1 < 2 ^ 64" by simp
  then show ?thesis by (simp add: unat_word_ariths)
qed

lemma arena_roots_leave:
  "arena_idx s \<le> m \<Longrightarrow>
     arena_roots (pic_leave s m) = arena_roots s @ map (arena s) [unat (arena_idx s) ..< unat m]"
proof -
  assume "arena_idx s \<le> m"
  then have "unat (arena_idx s) \<le> unat m" by (simp add: word_le_nat_alt)
  then have "[0 ..< unat m] = [0 ..< unat (arena_idx s)] @ [unat (arena_idx s) ..< unat m]"
    by (metis le0 upt_add_eq_append le_add_diff_inverse)
  then show ?thesis
    by (simp add: arena_roots_def pic_leave_def del: upt_Suc)
qed

definition arena_kept :: "('u, 'h) pic_state \<Rightarrow> ('u, 'h) pic_state \<Rightarrow> nat \<Rightarrow> bool" where
  "arena_kept s s' k \<longleftrightarrow>
     unat (arena_idx s) \<le> unat (arena_idx s') \<and> unat (arena_idx s') \<le> unat (arena_idx s) + k \<and>
     (\<forall>i < unat (arena_idx s). arena s' i = arena s i)"

lemma gc_protect_kept:
  assumes "gc_protect s p = Inr s'" "unat (arena_idx s) + 1 < 2 ^ 64"
  shows "arena_kept s s' 1"
proof -
  have idx: "unat (arena_idx s + 1) = unat (arena_idx s) + 1"
    using assms(2) by (simp add: unat_word_ariths)
  show ?thesis
  proof (cases "arena_idx s < arena_size s")
    case True
    with assms(1) idx show ?thesis
      by (auto simp: gc_protect_room arena_kept_def)
  next
    case False
    then have "arena_size s \<le> arena_idx s" by simp
    with assms(1) idx show ?thesis
      by (auto simp: gc_protect_grow arena_kept_def Let_def split: prod.splits if_splits)
  qed
qed

lemma run_kept:
  "run_op s x = Inr s' \<Longrightarrow> unat (arena_idx s) + pushes x < 2 ^ 64 \<Longrightarrow> arena_kept s s' (pushes x)"
  "run_ops s xs = Inr s' \<Longrightarrow> unat (arena_idx s) + pushes_list xs < 2 ^ 64 \<Longrightarrow>
     arena_kept s s' (pushes_list xs)"
proof (induction s x and s xs arbitrary: s' and s' rule: run_op_run_ops.induct)
  case (1 s v)
  show ?case
  proof (cases v)
    case (Obj_val p)
    with 1 show ?thesis
      using gc_protect_kept[of s p s']
      by (auto simp: pic_protect_def split: sum.splits)
  qed (use 1 in \<open>auto simp: pic_protect_def arena_kept_def\<close>)
next
  case (2 s ops)
  then obtain t where t: "run_ops s ops = Inr t" "s' = pic_leave t (pic_enter s)"
    by (auto simp: Let_def split: sum.splits)
  from 2(1)[OF refl t(1)] 2(3) have "arena_kept s t (pushes_list ops)" by simp
  with t(2) show ?case
    by (simp add: arena_kept_def pic_leave_def pic_enter_def)
next
  case (3 s)
  then show ?case by (simp add: arena_kept_def)
next
  case (4 s x xs)
  then obtain t where t: "run_op s x = Inr t" "run_ops t xs = Inr s'"
    by (auto split: sum.splits)
  from 4(1)[OF t(1)] 4(4) have a: "arena_kept s t (pushes x)" by simp
  then have "unat (arena_idx t) + pushes_list xs < 2 ^ 64"
    using 4(4) by (simp add: arena_kept_def)
  from 4(2)[OF t(1) t(2) this] have b: "arena_kept t s' (pushes_list xs)" .
  from a b show ?case by (auto simp: arena_kept_def)
qed

lemma arena_roots_cong:
  "arena_idx s' = arena_idx s \<Longrightarrow> \<forall>i < unat (arena_idx s). arena s' i = arena s i \<Longrightarrow>
     arena_roots s' = arena_roots s"
  by (simp add: arena_roots_def)

lemma run_prog1: "\<exists>s'. run_op state1 (Scope prog1) = Inr s'"
  by (simp add: prog1_def state1_def state0_def pic_protect_def gc_protect_def pic_realloc_def
      pic_enter_def pic_leave_def budget_allocf_def sizeof_obj_ptr_def NULL_def Let_def pic_panic_def)

text \<open>
  C4: \<^verbatim>\<open>pic_protect\<close> never returns a value other than its argument. An immediate leaves the
  instance as it is. A heap object is stored in the slot \<open>arena_idx\<close>, which then moves up
  by one; when the index has reached the capacity \<open>n\<close>, the capacity first becomes
  \<open>2n + 1\<close> (in \<^verbatim>\<open>size_t\<close> arithmetic, which is the number \<open>2n + 1\<close> below \<open>2^63\<close>) and the
  array is reallocated for it. The reallocation is the one place where the call does not
  return: if the host allocator answers NULL, the shim panics with "memory exhausted".
\<close>

theorem pic_protect_arena:
  "(\<forall>r s'. pic_protect s v = Inr (r, s') \<longrightarrow> r = v) \<and>
   (\<not> pic_obj_p v \<longrightarrow> pic_protect s v = Inr (v, s)) \<and>
   (arena_idx s < arena_size s \<longrightarrow>
      pic_protect s (Obj_val p) =
        Inr (Obj_val p, s\<lparr>arena := (arena s)(unat (arena_idx s) := p),
                            arena_idx := arena_idx s + 1\<rparr>)) \<and>
   (arena_size s \<le> arena_idx s \<longrightarrow>
      pic_protect s (Obj_val p) =
        (let n' = arena_size s * 2 + 1;
             (q, u) = allocf s (userdata s) (arena_ptr s) (sizeof_obj_ptr * n')
         in if q = NULL then Inl (Panic ''memory exhausted'')
            else Inr (Obj_val p,
                   s\<lparr>userdata := u, arena_ptr := q, arena_size := n',
                     arena := (arena s)(unat (arena_idx s) := p),
                     arena_idx := arena_idx s + 1\<rparr>))) \<and>
   (unat (arena_size s) < 2 ^ 63 \<longrightarrow> unat (arena_size s * 2 + 1) = 2 * unat (arena_size s) + 1)"
proof (intro conjI allI impI)
  fix r s' assume "pic_protect s v = Inr (r, s')"
  then show "r = v"
    by (cases v) (auto simp: pic_protect_def split: sum.splits)
next
  assume "\<not> pic_obj_p v"
  then show "pic_protect s v = Inr (v, s)"
    by (cases v) (simp_all add: pic_protect_def)
next
  assume "arena_idx s < arena_size s"
  then show "pic_protect s (Obj_val p) =
        Inr (Obj_val p, s\<lparr>arena := (arena s)(unat (arena_idx s) := p),
                            arena_idx := arena_idx s + 1\<rparr>)"
    by (simp add: pic_protect_def gc_protect_room)
next
  assume "arena_size s \<le> arena_idx s"
  then show "pic_protect s (Obj_val p) =
        (let n' = arena_size s * 2 + 1;
             (q, u) = allocf s (userdata s) (arena_ptr s) (sizeof_obj_ptr * n')
         in if q = NULL then Inl (Panic ''memory exhausted'')
            else Inr (Obj_val p,
                   s\<lparr>userdata := u, arena_ptr := q, arena_size := n',
                     arena := (arena s)(unat (arena_idx s) := p),
                     arena_idx := arena_idx s + 1\<rparr>))"
    by (simp add: pic_protect_def gc_protect_grow Let_def split: prod.splits)
next
  assume "unat (arena_size s) < 2 ^ 63"
  then show "unat (arena_size s * 2 + 1) = 2 * unat (arena_size s) + 1"
    by (rule double_plus_one)
qed

theorem pic_protect_arena_witness:
  "pic_protect state0 (Int_val 3) = Inr (Int_val 3, state0) \<and>
   pic_protect state0 (Obj_val 7) = Inr (Obj_val 7, state1) \<and>
   pic_protect (pic_leave state1 0) (Obj_val 9) =
     Inr (Obj_val 9, state1\<lparr>arena := (\<lambda>i. 0)(0 := 9)\<rparr>) \<and>
   pic_protect (state0\<lparr>userdata := 7\<rparr>) (Obj_val 7) = Inl (Panic ''memory exhausted'') \<and>
   unat (arena_size state1 * 2 + 1) = 3"
  using pic_protect_arena[of state0 "Int_val 3" 7] pic_protect_arena[of "pic_leave state1 0" "Obj_val 9" 9]
    pic_protect_arena[of "state0\<lparr>userdata := 7\<rparr>" "Obj_val 7" 7] pic_protect_arena[of state1 "Obj_val 7" 7]
  by (simp add: state0_def state1_def budget_allocf_def NULL_def sizeof_obj_ptr_def pic_leave_def)

text \<open>
  C5: \<^verbatim>\<open>pic_enter\<close> returns the current arena length, \<^verbatim>\<open>pic_leave\<close> sets the length to the
  mark it is given, which truncates the scanned window when the mark is not above the
  current length; leaving with the mark just entered changes nothing. Scopes nest as a
  stack: whatever a scope protects, and whatever scopes it opens and closes inside, at its
  end the arena has the length and the scanned slots it had at its start (as long as the
  index does not pass \<open>2^64\<close>).
\<close>

theorem enter_leave_lifo:
  "pic_enter s = arena_idx s \<and>
   arena_idx (pic_leave t m) = m \<and>
   (m \<le> arena_idx t \<longrightarrow> arena_roots (pic_leave t m) = take (unat m) (arena_roots t)) \<and>
   pic_leave s (pic_enter s) = s \<and>
   (run_op s (Scope ops) = Inr s' \<and> unat (arena_idx s) + pushes_list ops < 2 ^ 64 \<longrightarrow>
      arena_idx s' = arena_idx s \<and> arena_roots s' = arena_roots s)"
proof (intro conjI impI)
  show "pic_enter s = arena_idx s" by (simp add: pic_enter_def)
  show "arena_idx (pic_leave t m) = m" by (simp add: pic_leave_def)
  show "pic_leave s (pic_enter s) = s" by (simp add: pic_leave_def pic_enter_def)
next
  assume "m \<le> arena_idx t"
  then have "unat m \<le> unat (arena_idx t)" by (simp add: word_le_nat_alt)
  then show "arena_roots (pic_leave t m) = take (unat m) (arena_roots t)"
    by (simp add: arena_roots_def pic_leave_def take_map min_def)
next
  assume a: "run_op s (Scope ops) = Inr s' \<and> unat (arena_idx s) + pushes_list ops < 2 ^ 64"
  then obtain t where t: "run_ops s ops = Inr t" "s' = pic_leave t (pic_enter s)"
    by (auto simp: Let_def split: sum.splits)
  from run_kept(2)[OF t(1)] a have k: "arena_kept s t (pushes_list ops)" by simp
  show "arena_idx s' = arena_idx s" using t(2) by (simp add: pic_leave_def pic_enter_def)
  then show "arena_roots s' = arena_roots s"
    using k t(2) by (intro arena_roots_cong) (simp_all add: arena_kept_def pic_leave_def)
qed

theorem enter_leave_lifo_witness:
  "pic_leave state1 (pic_enter state1) = state1 \<and>
   arena_roots (pic_leave state1 0) = take 0 (arena_roots state1) \<and>
   (case run_op state1 (Scope prog1) of
      Inl e \<Rightarrow> False
    | Inr s' \<Rightarrow> arena_idx s' = 1 \<and> arena_roots s' = [7])"
proof -
  obtain s' where run: "run_op state1 (Scope prog1) = Inr s'"
    using run_prog1 by blast
  have "unat (arena_idx state1) + pushes_list prog1 < 2 ^ 64"
    by (simp add: state1_def state0_def prog1_def)
  moreover have "(0 :: size_t) \<le> arena_idx state1" by simp
  ultimately have "arena_idx s' = arena_idx state1" "arena_roots s' = arena_roots state1"
    "pic_leave state1 (pic_enter state1) = state1"
    "arena_roots (pic_leave state1 0) = take (unat (0 :: size_t)) (arena_roots state1)"
    using run enter_leave_lifo[of state1 state1 0 prog1 s'] by blast+
  moreover have "arena_roots state1 = [7]" "arena_idx state1 = 1"
    by (simp_all add: arena_roots_def state1_def state0_def)
  ultimately show ?thesis using run by simp
qed

text \<open>
  C9: \<^verbatim>\<open>pic_leave\<close> stores its argument in \<^verbatim>\<open>arena_idx\<close> without comparing it to the current
  index. With a mark above the current index the window of scanned slots grows by the slots
  in between, whatever they hold, so \<^verbatim>\<open>pic_leave\<close> does not always shrink the window.
\<close>

theorem pic_leave_unchecked:
  fixes s :: "('u, 'h) pic_state"
  shows
  "arena_idx (pic_leave s m) = m \<and>
   (arena_idx s < m \<longrightarrow>
      arena_roots (pic_leave s m) = arena_roots s @ map (arena s) [unat (arena_idx s) ..< unat m] \<and>
      length (arena_roots s) < length (arena_roots (pic_leave s m))) \<and>
   \<not> (\<forall>(t :: ('u, 'h) pic_state) k. length (arena_roots (pic_leave t k)) \<le> length (arena_roots t))"
proof (intro conjI impI)
  show "arena_idx (pic_leave s m) = m" by (simp add: pic_leave_def)
next
  assume lt: "arena_idx s < m"
  then show "arena_roots (pic_leave s m) =
      arena_roots s @ map (arena s) [unat (arena_idx s) ..< unat m]"
    by (intro arena_roots_leave) simp
  from lt have "unat (arena_idx s) < unat m" by (simp add: word_less_nat_alt)
  then show "length (arena_roots s) < length (arena_roots (pic_leave s m))"
    by (simp add: arena_roots_def pic_leave_def)
next
  show "\<not> (\<forall>(t :: ('u, 'h) pic_state) k. length (arena_roots (pic_leave t k)) \<le> length (arena_roots t))"
  proof
    assume a: "\<forall>(t :: ('u, 'h) pic_state) k. length (arena_roots (pic_leave t k)) \<le> length (arena_roots t)"
    from a[rule_format, of "s\<lparr>arena_idx := 0\<rparr>" 1] show False
      by (simp add: arena_roots_def pic_leave_def)
  qed
qed

theorem pic_leave_unchecked_witness:
  "arena_roots (pic_leave state1 0) = [] \<and>
   arena_idx (pic_leave state1 0) < 1 \<and>
   arena_roots (pic_leave (pic_leave state1 0) 1) = [7] \<and>
   length (arena_roots (pic_leave state1 0)) < length (arena_roots (pic_leave (pic_leave state1 0) 1))"
  using pic_leave_unchecked[of "pic_leave state1 0" 1]
  by (simp add: state1_def state0_def pic_leave_def arena_roots_def)

subsection \<open>The allocator shim\<close>

lemma calloc_wrap: "2 ^ 64 \<le> unat cnt * unat n \<Longrightarrow> unat ((n :: size_t) * cnt) < unat cnt * unat n"
proof -
  assume a: "2 ^ 64 \<le> unat cnt * unat n"
  have "unat (n * cnt) < 2 ^ 64" using unsigned_less[of "n * cnt"] by simp
  with a show ?thesis by linarith
qed

lemma pic_calloc_cases:
  "pic_calloc s cnt n =
     (let (p, u) = allocf s (userdata s) NULL (n * cnt) in
      if p = NULL \<and> n * cnt \<noteq> 0 then Inl (Panic ''memory exhausted'')
      else Inr (p, memset p 0 (n * cnt) (s\<lparr>userdata := u\<rparr>)))"
  by (simp add: pic_calloc_def pic_panic_def Let_def word_greater_zero_iff split: prod.splits)

lemma memset_zero_fill:
  "k \<noteq> 0 \<Longrightarrow> \<exists>rest. mem (memset p 0 k t) p = Some (replicate (unat k) 0 @ rest)"
  by (simp add: memset_def)

text \<open>
  C10: \<^verbatim>\<open>pic_calloc\<close> multiplies \<open>size\<close> by \<open>count\<close> in \<^verbatim>\<open>size_t\<close>, so the request is the product
  modulo \<open>2^64\<close>, smaller than the product of the numbers whenever that product does not fit.
  It panics exactly when this request is not 0 and the allocator returns NULL; otherwise it
  returns the allocator's pointer with as many bytes set to 0 as the request says.
\<close>

theorem pic_calloc_wraps:
  "pic_calloc s cnt n =
     (let (p, u) = allocf s (userdata s) NULL (n * cnt) in
      if p = NULL \<and> n * cnt \<noteq> 0 then Inl (Panic ''memory exhausted'')
      else Inr (p, memset p 0 (n * cnt) (s\<lparr>userdata := u\<rparr>))) \<and>
   unat (n * cnt) = (unat n * unat cnt) mod 2 ^ 64 \<and>
   (2 ^ 64 \<le> unat cnt * unat n \<longrightarrow> unat (n * cnt) < unat cnt * unat n) \<and>
   (n * cnt \<noteq> 0 \<longrightarrow> (\<exists>rest. mem (memset p 0 (n * cnt) t) p = Some (replicate (unat (n * cnt)) 0 @ rest))) \<and>
   (n * cnt = 0 \<longrightarrow> memset p 0 (n * cnt) t = t)"
proof (intro conjI impI)
  show "pic_calloc s cnt n =
     (let (p, u) = allocf s (userdata s) NULL (n * cnt) in
      if p = NULL \<and> n * cnt \<noteq> 0 then Inl (Panic ''memory exhausted'')
      else Inr (p, memset p 0 (n * cnt) (s\<lparr>userdata := u\<rparr>)))"
    by (rule pic_calloc_cases)
  show "unat (n * cnt) = (unat n * unat cnt) mod 2 ^ 64"
    by (simp add: unat_word_ariths)
next
  assume "2 ^ 64 \<le> unat cnt * unat n"
  then show "unat (n * cnt) < unat cnt * unat n" by (rule calloc_wrap)
next
  assume "n * cnt \<noteq> 0"
  then show "\<exists>rest. mem (memset p 0 (n * cnt) t) p = Some (replicate (unat (n * cnt)) 0 @ rest)"
    by (rule memset_zero_fill)
next
  assume "n * cnt = 0"
  then show "memset p 0 (n * cnt) t = t" by (simp add: memset_def)
qed

theorem pic_calloc_wraps_witness:
  "(2 :: nat) ^ 64 \<le> unat (2 ^ 63 + 1 :: size_t) * unat (2 :: size_t) \<and>
   pic_calloc state0 (2 ^ 63 + 1) 2 =
     Inr (1, state0\<lparr>userdata := 4094, mem := (\<lambda>p. None)(1 := Some (replicate 2 0))\<rparr>) \<and>
   pic_calloc state0 (2 ^ 63) 2 = Inr (NULL, state0) \<and>
   pic_calloc state0 4097 1 = Inl (Panic ''memory exhausted'')"
  using pic_calloc_wraps[of state0 "2 ^ 63 + 1" 2 1 "state0\<lparr>userdata := 4094\<rparr>"]
    pic_calloc_wraps[of state0 "2 ^ 63" 2 1 state0] pic_calloc_wraps[of state0 4097 1 1 state0]
  by (simp add: state0_def budget_allocf_def NULL_def memset_def)

subsection \<open>Evaluating the examples\<close>

lemma state0_fields [simp]:
  "allocf state0 = budget_allocf" "userdata state0 = 4096" "mem state0 = (\<lambda>p. None)"
  "arena_ptr state0 = NULL" "arena state0 = (\<lambda>i. 0)" "arena_size state0 = 0" "arena_idx state0 = 0"
  "gc_enable state0" "objs state0 = []" "marks state0 = {}" "weaks state0 = []" "pages state0 = []"
  "heap_priv state0 = []" "oblist state0 = []" "cp state0 = None" "stack state0 = []"
  "callinfo state0 = []" "ireps state0 = []" "globals state0 = Nil_val" "macros state0 = Nil_val"
  "err state0 = Nil_val" "features state0 = Nil_val" "ltable state0 = []" "fin_calls state0 = []"
  by (simp_all add: state0_def NULL_def)

lemma ex_backend_fields:
  "gc_init ex_backend = (\<lambda>s. s)" "heap_alloc ex_backend = ex_heap_alloc"
  "heap_morecore ex_backend = ex_heap_morecore" "gc_sweep_page ex_backend = ex_gc_sweep_page"
  "PAGE_UNITS ex_backend = 4" "PIC_PAGE_REQUEST_THRESHOLD ex_backend = (\<lambda>units. units * 77 div 100)"
  "\<not> PIC_USE_BITMAPGC ex_backend" "\<not> GC_STRESS ex_backend"
  by (simp_all add: ex_backend_def)

lemma ex_bitmap_backend_fields:
  "gc_init ex_bitmap_backend = (\<lambda>s. s\<lparr>marks := {}\<rparr>)" "heap_alloc ex_bitmap_backend = ex_heap_alloc"
  "heap_morecore ex_bitmap_backend = ex_heap_morecore"
  "gc_sweep_page ex_bitmap_backend = ex_gc_sweep_page"
  "PAGE_UNITS ex_bitmap_backend = 4"
  "PIC_PAGE_REQUEST_THRESHOLD ex_bitmap_backend = (\<lambda>units. units * 77 div 100)"
  "PIC_USE_BITMAPGC ex_bitmap_backend" "\<not> GC_STRESS ex_bitmap_backend"
  by (simp_all add: ex_bitmap_backend_def ex_backend_def)

lemmas ex_simps = ex_backend_fields ex_bitmap_backend_fields ex_heap_alloc_def ex_heap_morecore_def ex_gc_sweep_page_def
  ex_units_def ex_fits_def pic_malloc_def pic_panic_def budget_allocf_def NULL_def

lemmas gc_simps = pic_gc_def gc_mark_phase_def gc_sweep_phase_def gc_mark_objects.simps(2)
  gc_mark_weaks.simps gc_sweep_weaks.simps gc_sweep_oblist_def gc_mark_def gc_mark_object_def
  arena_roots_def is_marked_def mark_def obj_at_def weak_hash_def weak_purge_def trace_refs_def
  gc_finalize_object_def fin_call_def pic_free_def

lemmas st_simps = st_garbage_def st_live_def st_full_def pair0_def

lemma ev_alloc_live_16:
  "heap_alloc ex_backend st_live 16 = (Some 6, st_live\<lparr>heap_priv := [(6, 1), (4, 2)]\<rparr>)"
  by (simp add: st_simps ex_simps)

lemma ev_alloc_live_48: "heap_alloc ex_backend st_live 48 = (None, st_live)"
  by (simp add: st_simps ex_simps)

lemma ev_alloc_live_80: "heap_alloc ex_backend st_live 80 = (None, st_live)"
  by (simp add: st_simps ex_simps)

lemma ev_gc_live: "pic_gc ex_backend st_live = Inr st_live"
  by (simp add: st_simps ex_simps gc_simps)

lemma ev_morecore_live:
  "heap_morecore ex_backend st_live = Inr (st_live\<lparr>userdata := 4032, pages := [2, 1]\<rparr>)"
  by (simp add: st_simps ex_simps)

lemma ev_alloc_live2_48:
  "heap_alloc ex_backend (st_live\<lparr>userdata := 4032, pages := [2, 1]\<rparr>) 48 =
     (Some 8, st_live\<lparr>userdata := 4032, pages := [2, 1], heap_priv := [(8, 3), (4, 2)]\<rparr>)"
  by (simp add: st_simps ex_simps)

lemma ev_alloc_live2_80:
  "heap_alloc ex_backend (st_live\<lparr>userdata := 4032, pages := [2, 1]\<rparr>) 80 =
     (None, st_live\<lparr>userdata := 4032, pages := [2, 1]\<rparr>)"
  by (simp add: st_simps ex_simps)

lemma ev_alloc_garbage_16: "heap_alloc ex_backend st_garbage 16 = (None, st_garbage)"
  by (simp add: st_simps ex_simps)

lemma ev_gc_garbage: "pic_gc ex_backend st_garbage = Inr (st_garbage\<lparr>objs := [], heap_priv := []\<rparr>)"
  by (simp add: st_simps ex_simps gc_simps)

lemma ev_alloc_garbage2_16:
  "heap_alloc ex_backend (st_garbage\<lparr>objs := [], heap_priv := []\<rparr>) 16 =
     (Some 4, st_garbage\<lparr>objs := [], heap_priv := [(4, 1)]\<rparr>)"
  by (simp add: st_simps ex_simps)

lemma ev_alloc_0_80: "heap_alloc ex_backend state0 80 = (None, state0)"
  by (simp add: ex_simps)

lemma ev_gc_0: "pic_gc ex_backend state0 = Inr (state0\<lparr>userdata := 4032, pages := [1]\<rparr>)"
  by (simp add: ex_simps gc_simps)

lemma ev_alloc_01_80:
  "heap_alloc ex_backend (state0\<lparr>userdata := 4032, pages := [1]\<rparr>) 80 =
     (None, state0\<lparr>userdata := 4032, pages := [1]\<rparr>)"
  by (simp add: ex_simps)

lemma ev_morecore_01:
  "heap_morecore ex_backend (state0\<lparr>userdata := 4032, pages := [1]\<rparr>) =
     Inr (state0\<lparr>userdata := 3968, pages := [2, 1]\<rparr>)"
  by (simp add: ex_simps)

lemma ev_alloc_02_80:
  "heap_alloc ex_backend (state0\<lparr>userdata := 3968, pages := [2, 1]\<rparr>) 80 =
     (None, state0\<lparr>userdata := 3968, pages := [2, 1]\<rparr>)"
  by (simp add: ex_simps)

lemma ev_gc_stale_bitmap:
  "pic_gc ex_bitmap_backend (st_garbage\<lparr>marks := {4}\<rparr>) = Inr (st_garbage\<lparr>objs := [], heap_priv := []\<rparr>)"
  by (simp add: st_simps ex_simps gc_simps)

lemma ev_gc_stale:
  "pic_gc ex_backend (st_garbage\<lparr>marks := {4}\<rparr>) = Inr (st_garbage\<lparr>userdata := 4032, pages := [2, 1]\<rparr>)"
  by (simp add: st_simps ex_simps gc_simps)

subsection \<open>The entry points\<close>

lemma init_header_tt: "\<exists>ob. obj_at (init_header be s p ty) p = Some ob \<and> tt ob = ty"
  by (simp add: init_header_def obj_at_def Let_def update_conv' split: option.splits)

lemma alloc_unsafe_exhausted:
  "\<not> GC_STRESS be \<Longrightarrow> heap_alloc be s n = (None, s1) \<Longrightarrow> pic_gc be s1 = Inr s2 \<Longrightarrow>
   heap_alloc be s2 n = (None, s3) \<Longrightarrow> heap_morecore be s3 = Inr s4 \<Longrightarrow>
   heap_alloc be s4 n = (None, s5) \<Longrightarrow>
   pic_obj_alloc_unsafe be s n ty = Inl (Panic ''GC memory exhausted'')"
  by (simp add: pic_obj_alloc_unsafe_def pic_panic_def)

lemma ev_unsafe_0_80:
  "pic_obj_alloc_unsafe ex_backend state0 80 PIC_TYPE_PAIR = Inl (Panic ''GC memory exhausted'')"
  by (rule alloc_unsafe_exhausted[OF ex_backend_fields(8) ev_alloc_0_80 ev_gc_0 ev_alloc_01_80
      ev_morecore_01 ev_alloc_02_80])

text \<open>
  C3: without the stress option, \<^verbatim>\<open>pic_obj_alloc_unsafe\<close> returns the cell of the first
  \<^verbatim>\<open>heap_alloc\<close> that succeeds among three: on the instance as it is, after \<^verbatim>\<open>pic_gc\<close>, and
  after \<^verbatim>\<open>heap_morecore\<close>; each later step runs only when the attempt before it returned NULL,
  and when the third returns NULL the function panics. Whenever it returns, the object at
  the returned address carries the requested tag. (With \<^verbatim>\<open>GC_STRESS\<close> a collection comes
  before the first attempt; the last conjunct holds in both configurations.)
\<close>

theorem pic_obj_alloc_unsafe_cascade:
  assumes "\<not> GC_STRESS be"
  shows
  "(\<forall>p s1. heap_alloc be s n = (Some p, s1) \<longrightarrow>
      pic_obj_alloc_unsafe be s n ty = Inr (p, init_header be s1 p ty)) \<and>
   (\<forall>s1 s2. heap_alloc be s n = (None, s1) \<and> pic_gc be s1 = Inr s2 \<longrightarrow>
      (\<forall>p s3. heap_alloc be s2 n = (Some p, s3) \<longrightarrow>
         pic_obj_alloc_unsafe be s n ty = Inr (p, init_header be s3 p ty)) \<and>
      (\<forall>s3 s4. heap_alloc be s2 n = (None, s3) \<and> heap_morecore be s3 = Inr s4 \<longrightarrow>
         (\<forall>p s5. heap_alloc be s4 n = (Some p, s5) \<longrightarrow>
            pic_obj_alloc_unsafe be s n ty = Inr (p, init_header be s5 p ty)) \<and>
         (\<forall>s5. heap_alloc be s4 n = (None, s5) \<longrightarrow>
            pic_obj_alloc_unsafe be s n ty = Inl (Panic ''GC memory exhausted'')))) \<and>
   (\<forall>p s'. pic_obj_alloc_unsafe be s n ty = Inr (p, s') \<longrightarrow>
      (\<exists>ob. obj_at s' p = Some ob \<and> tt ob = ty))"
proof (intro conjI allI impI)
  fix p s'
  assume "pic_obj_alloc_unsafe be s n ty = Inr (p, s')"
  then obtain t where "s' = init_header be t p ty"
    by (auto simp: pic_obj_alloc_unsafe_def pic_panic_def
             split: sum.splits prod.splits option.splits if_splits)
  then show "\<exists>ob. obj_at s' p = Some ob \<and> tt ob = ty"
    using init_header_tt[of be t p ty] by simp
qed (use assms in \<open>auto simp: pic_obj_alloc_unsafe_def pic_panic_def\<close>)

theorem pic_obj_alloc_unsafe_cascade_witness:
  "\<not> GC_STRESS ex_backend \<and>
   pic_obj_alloc_unsafe ex_backend st_live 16 PIC_TYPE_STRING =
     Inr (6, init_header ex_backend (st_live\<lparr>heap_priv := [(6, 1), (4, 2)]\<rparr>) 6 PIC_TYPE_STRING) \<and>
   obj_at (init_header ex_backend (st_live\<lparr>heap_priv := [(6, 1), (4, 2)]\<rparr>) 6 PIC_TYPE_STRING) 6 =
     Some \<lparr>tt = PIC_TYPE_STRING, body = No_payload\<rparr> \<and>
   heap_alloc ex_backend st_garbage 16 = (None, st_garbage) \<and>
   pic_obj_alloc_unsafe ex_backend st_garbage 16 PIC_TYPE_STRING =
     Inr (4, init_header ex_backend (st_garbage\<lparr>objs := [], heap_priv := [(4, 1)]\<rparr>) 4 PIC_TYPE_STRING) \<and>
   heap_alloc ex_backend st_live 48 = (None, st_live) \<and> pic_gc ex_backend st_live = Inr st_live \<and>
   pic_obj_alloc_unsafe ex_backend st_live 48 PIC_TYPE_STRING =
     Inr (8, init_header ex_backend
               (st_live\<lparr>userdata := 4032, pages := [2, 1], heap_priv := [(8, 3), (4, 2)]\<rparr>)
               8 PIC_TYPE_STRING) \<and>
   pic_obj_alloc_unsafe ex_backend st_live 80 PIC_TYPE_STRING = Inl (Panic ''GC memory exhausted'')"
proof -
  have ns: "\<not> GC_STRESS ex_backend" by (simp add: ex_backend_fields)
  note c = pic_obj_alloc_unsafe_cascade[OF ns]
  have a: "pic_obj_alloc_unsafe ex_backend st_live 16 PIC_TYPE_STRING =
     Inr (6, init_header ex_backend (st_live\<lparr>heap_priv := [(6, 1), (4, 2)]\<rparr>) 6 PIC_TYPE_STRING)"
    using c[of st_live 16 PIC_TYPE_STRING] ev_alloc_live_16 by blast
  have t: "obj_at (init_header ex_backend (st_live\<lparr>heap_priv := [(6, 1), (4, 2)]\<rparr>) 6 PIC_TYPE_STRING) 6 =
     Some \<lparr>tt = PIC_TYPE_STRING, body = No_payload\<rparr>"
    by (simp add: init_header_def obj_at_def st_simps)
  have b: "pic_obj_alloc_unsafe ex_backend st_garbage 16 PIC_TYPE_STRING =
     Inr (4, init_header ex_backend (st_garbage\<lparr>objs := [], heap_priv := [(4, 1)]\<rparr>) 4 PIC_TYPE_STRING)"
    using c[of st_garbage 16 PIC_TYPE_STRING] ev_alloc_garbage_16 ev_gc_garbage ev_alloc_garbage2_16
    by blast
  have d: "pic_obj_alloc_unsafe ex_backend st_live 48 PIC_TYPE_STRING =
     Inr (8, init_header ex_backend
               (st_live\<lparr>userdata := 4032, pages := [2, 1], heap_priv := [(8, 3), (4, 2)]\<rparr>)
               8 PIC_TYPE_STRING)"
    using c[of st_live 48 PIC_TYPE_STRING] ev_alloc_live_48 ev_gc_live ev_morecore_live ev_alloc_live2_48
    by blast
  have e: "pic_obj_alloc_unsafe ex_backend st_live 80 PIC_TYPE_STRING = Inl (Panic ''GC memory exhausted'')"
    using c[of st_live 80 PIC_TYPE_STRING] ev_alloc_live_80 ev_gc_live ev_morecore_live ev_alloc_live2_80
    by blast
  from ns a t b d e ev_alloc_garbage_16 ev_alloc_live_48 ev_gc_live show ?thesis by blast
qed

text \<open>
  C2 (as amended): the message of the panic is "GC memory exhausted". An error of
  \<^verbatim>\<open>pic_obj_alloc_unsafe\<close> is an error of one of its two collections or of \<^verbatim>\<open>heap_morecore\<close>,
  or it is this panic, raised after the collection, the page request and three failed
  attempts; and whenever these all fail to give a cell, the call ends in this panic, which
  leaves no instance to go on with.
\<close>

theorem pic_obj_alloc_unsafe_panic:
  "(pic_obj_alloc_unsafe be s n ty = Inl e \<longrightarrow>
      (GC_STRESS be \<and> pic_gc be s = Inl e) \<or>
      (\<exists>s0 s1. (if GC_STRESS be then pic_gc be s else Inr s) = Inr s0 \<and>
         heap_alloc be s0 n = (None, s1) \<and>
         (pic_gc be s1 = Inl e \<or>
          (\<exists>s2 s3. pic_gc be s1 = Inr s2 \<and> heap_alloc be s2 n = (None, s3) \<and>
             (heap_morecore be s3 = Inl e \<or>
              (\<exists>s4 s5. heap_morecore be s3 = Inr s4 \<and> heap_alloc be s4 n = (None, s5) \<and>
                 e = Panic ''GC memory exhausted'')))))) \<and>
   ((\<exists>s0 s1 s2 s3 s4 s5. (if GC_STRESS be then pic_gc be s else Inr s) = Inr s0 \<and>
       heap_alloc be s0 n = (None, s1) \<and> pic_gc be s1 = Inr s2 \<and>
       heap_alloc be s2 n = (None, s3) \<and> heap_morecore be s3 = Inr s4 \<and>
       heap_alloc be s4 n = (None, s5)) \<longrightarrow>
      pic_obj_alloc_unsafe be s n ty = pic_panic ''GC memory exhausted'') \<and>
   (pic_panic ''GC memory exhausted'' :: error + (addr \<times> ('u, 'h) pic_state)) =
      Inl (Panic ''GC memory exhausted'')"
proof (intro conjI impI)
  assume "pic_obj_alloc_unsafe be s n ty = Inl e"
  then show "(GC_STRESS be \<and> pic_gc be s = Inl e) \<or>
      (\<exists>s0 s1. (if GC_STRESS be then pic_gc be s else Inr s) = Inr s0 \<and>
         heap_alloc be s0 n = (None, s1) \<and>
         (pic_gc be s1 = Inl e \<or>
          (\<exists>s2 s3. pic_gc be s1 = Inr s2 \<and> heap_alloc be s2 n = (None, s3) \<and>
             (heap_morecore be s3 = Inl e \<or>
              (\<exists>s4 s5. heap_morecore be s3 = Inr s4 \<and> heap_alloc be s4 n = (None, s5) \<and>
                 e = Panic ''GC memory exhausted'')))))"
    unfolding pic_obj_alloc_unsafe_def pic_panic_def
    by (auto split: sum.splits prod.splits option.splits if_splits)
next
  assume "\<exists>s0 s1 s2 s3 s4 s5. (if GC_STRESS be then pic_gc be s else Inr s) = Inr s0 \<and>
       heap_alloc be s0 n = (None, s1) \<and> pic_gc be s1 = Inr s2 \<and>
       heap_alloc be s2 n = (None, s3) \<and> heap_morecore be s3 = Inr s4 \<and>
       heap_alloc be s4 n = (None, s5)"
  then show "pic_obj_alloc_unsafe be s n ty = pic_panic ''GC memory exhausted''"
    unfolding pic_obj_alloc_unsafe_def by (auto split: if_splits)
next
  show "(pic_panic ''GC memory exhausted'' :: error + (addr \<times> ('u, 'h) pic_state)) =
      Inl (Panic ''GC memory exhausted'')"
    by (simp add: pic_panic_def)
qed

theorem pic_obj_alloc_unsafe_panic_witness:
  "heap_alloc ex_backend st_live 80 = (None, st_live) \<and>
   pic_gc ex_backend st_live = Inr st_live \<and>
   heap_morecore ex_backend st_live = Inr (st_live\<lparr>userdata := 4032, pages := [2, 1]\<rparr>) \<and>
   heap_alloc ex_backend (st_live\<lparr>userdata := 4032, pages := [2, 1]\<rparr>) 80 =
     (None, st_live\<lparr>userdata := 4032, pages := [2, 1]\<rparr>) \<and>
   pic_obj_alloc_unsafe ex_backend st_live 80 PIC_TYPE_PAIR = pic_panic ''GC memory exhausted'' \<and>
   pic_obj_alloc_unsafe ex_backend st_live 80 PIC_TYPE_PAIR = Inl (Panic ''GC memory exhausted'')"
proof -
  have "\<exists>s0 s1 s2 s3 s4 s5.
       (if GC_STRESS ex_backend then pic_gc ex_backend st_live else Inr st_live) = Inr s0 \<and>
       heap_alloc ex_backend s0 80 = (None, s1) \<and> pic_gc ex_backend s1 = Inr s2 \<and>
       heap_alloc ex_backend s2 80 = (None, s3) \<and> heap_morecore ex_backend s3 = Inr s4 \<and>
       heap_alloc ex_backend s4 80 = (None, s5)"
    using ev_alloc_live_80 ev_gc_live ev_morecore_live ev_alloc_live2_80 by fastforce
  with pic_obj_alloc_unsafe_panic[of ex_backend st_live 80 PIC_TYPE_PAIR]
  have "pic_obj_alloc_unsafe ex_backend st_live 80 PIC_TYPE_PAIR = pic_panic ''GC memory exhausted''"
    "pic_obj_alloc_unsafe ex_backend st_live 80 PIC_TYPE_PAIR = Inl (Panic ''GC memory exhausted'')"
    by (blast, simp add: pic_panic_def)
  with ev_alloc_live_80 ev_gc_live ev_morecore_live ev_alloc_live2_80 show ?thesis by blast
qed

text \<open>
  The claim C2 as stated names the message "(GC) memory exhausted". On the example instance
  with no page, a request of 80 bytes (more than a page) fails three times, around a
  collection and a page request that both succeed, and the panic carries another message.
\<close>

theorem pic_obj_alloc_unsafe_message_counterexample:
  "heap_alloc ex_backend state0 80 = (None, state0) \<and>
   pic_gc ex_backend state0 = Inr (state0\<lparr>userdata := 4032, pages := [1]\<rparr>) \<and>
   heap_alloc ex_backend (state0\<lparr>userdata := 4032, pages := [1]\<rparr>) 80 =
     (None, state0\<lparr>userdata := 4032, pages := [1]\<rparr>) \<and>
   heap_morecore ex_backend (state0\<lparr>userdata := 4032, pages := [1]\<rparr>) =
     Inr (state0\<lparr>userdata := 3968, pages := [2, 1]\<rparr>) \<and>
   heap_alloc ex_backend (state0\<lparr>userdata := 3968, pages := [2, 1]\<rparr>) 80 =
     (None, state0\<lparr>userdata := 3968, pages := [2, 1]\<rparr>) \<and>
   pic_obj_alloc_unsafe ex_backend state0 80 PIC_TYPE_PAIR = Inl (Panic ''GC memory exhausted'') \<and>
   pic_obj_alloc_unsafe ex_backend state0 80 PIC_TYPE_PAIR \<noteq> Inl (Panic ''(GC) memory exhausted'')"
proof -
  have "pic_obj_alloc_unsafe ex_backend state0 80 PIC_TYPE_PAIR \<noteq> Inl (Panic ''(GC) memory exhausted'')"
    unfolding ev_unsafe_0_80 by simp
  with ev_alloc_0_80 ev_gc_0 ev_alloc_01_80 ev_morecore_01 ev_alloc_02_80 ev_unsafe_0_80
  show ?thesis by blast
qed

text \<open>
  C7: with the collector disabled \<^verbatim>\<open>pic_gc\<close> returns the instance it was given, whatever the
  back-end's \<^verbatim>\<open>gc_init\<close> would do to it; enabled, it runs \<^verbatim>\<open>gc_init\<close>, then the mark phase on
  the result, then the sweep phase on the result of that.
\<close>

theorem pic_gc_phases:
  "(\<not> gc_enable s \<longrightarrow> pic_gc be s = Inr s) \<and>
   (gc_enable s \<longrightarrow>
      pic_gc be s =
        (case gc_mark_phase (gc_init be s) of
           Inl e \<Rightarrow> Inl e
         | Inr s' \<Rightarrow> gc_sweep_phase be s'))"
  by (simp add: pic_gc_def)

theorem pic_gc_phases_witness:
  "\<not> gc_enable (st_garbage\<lparr>gc_enable := False, marks := {4}\<rparr>) \<and>
   pic_gc ex_bitmap_backend (st_garbage\<lparr>gc_enable := False, marks := {4}\<rparr>) =
     Inr (st_garbage\<lparr>gc_enable := False, marks := {4}\<rparr>) \<and>
   gc_enable (st_garbage\<lparr>marks := {4}\<rparr>) \<and>
   pic_gc ex_bitmap_backend (st_garbage\<lparr>marks := {4}\<rparr>) =
     Inr (st_garbage\<lparr>objs := [], heap_priv := []\<rparr>) \<and>
   (case gc_mark_phase (gc_init ex_bitmap_backend (st_garbage\<lparr>marks := {4}\<rparr>)) of
      Inl e \<Rightarrow> Inl e
    | Inr s' \<Rightarrow> gc_sweep_phase ex_bitmap_backend s') =
     Inr (st_garbage\<lparr>objs := [], heap_priv := []\<rparr>)"
proof -
  have d: "\<not> gc_enable (st_garbage\<lparr>gc_enable := False, marks := {4}\<rparr>)" by simp
  have e: "gc_enable (st_garbage\<lparr>marks := {4}\<rparr>)" by (simp add: st_simps)
  have i: "gc_init ex_bitmap_backend (st_garbage\<lparr>marks := {4}\<rparr>) = st_garbage"
    by (simp add: ex_simps st_simps)
  from d e pic_gc_phases[of "st_garbage\<lparr>gc_enable := False, marks := {4}\<rparr>" ex_bitmap_backend]
    pic_gc_phases[of "st_garbage\<lparr>marks := {4}\<rparr>" ex_bitmap_backend] ev_gc_stale_bitmap
  show ?thesis by simp
qed

subsection \<open>The sweep phase\<close>

lemma weak_purge_frame [simp]:
  "marks (weak_purge s w) = marks s" "pages (weak_purge s w) = pages s"
  "oblist (weak_purge s w) = oblist s" "weaks (weak_purge s w) = weaks s"
  by (simp_all add: weak_purge_def)

lemma gc_sweep_weaks_frame:
  "marks (gc_sweep_weaks s) = marks s \<and> pages (gc_sweep_weaks s) = pages s \<and>
   oblist (gc_sweep_weaks s) = oblist s \<and> weaks (gc_sweep_weaks s) = []"
proof (induction s rule: gc_sweep_weaks.induct)
  case (1 s)
  show ?case
  proof (cases "weaks s")
    case Nil
    then show ?thesis by (simp add: gc_sweep_weaks.simps)
  next
    case (Cons w ws)
    with 1[OF Cons] show ?thesis
      by (simp add: gc_sweep_weaks.simps[of s])
  qed
qed

lemma gc_sweep_oblist_frame [simp]:
  "marks (gc_sweep_oblist s) = marks s" "pages (gc_sweep_oblist s) = pages s"
  "weaks (gc_sweep_oblist s) = weaks s" "objs (gc_sweep_oblist s) = objs s"
  by (simp_all add: gc_sweep_oblist_def)


lemma gc_sweep_pages_append:
  "gc_sweep_pages be (ps @ qs) r = gc_sweep_pages be qs (gc_sweep_pages be ps r)"
proof (induction ps arbitrary: r)
  case Nil
  then show ?case by simp
next
  case (Cons p ps)
  then show ?case by (cases r) (simp split: prod.splits)
qed








subsection \<open>The mark phase\<close>

text \<open>
  The list of pending pointers against the recursion of the source: marking a list is
  marking its members one after the other, and marking one object is the body of
  \<^verbatim>\<open>gc_mark_object\<close>, with a call for each pointer of the object.
\<close>

lemma gc_mark_objects_foldl: "gc_mark_objects xs s = foldl gc_mark_object s xs"
proof (induction xs arbitrary: s)
  case Nil
  then show ?case by simp
next
  case (Cons x xs)
  have "gc_mark_objects (x # xs) s = gc_mark_objects xs (gc_mark_objects [x] s)"
    using gc_mark_objects_append[of "[x]" xs s] by simp
  with Cons show ?case by (simp add: gc_mark_object_def)
qed

lemma gc_mark_object_unfold:
  "gc_mark_object s a =
     (if is_marked s a then s
      else
        (case obj_at s a of
           None \<Rightarrow> mark s a
         | Some ob \<Rightarrow>
             if tt ob = PIC_TYPE_WEAK then (mark s a)\<lparr>weaks := a # weaks s\<rparr>
             else foldl gc_mark_object (mark s a) (trace_refs ob)))"
  unfolding gc_mark_objects_foldl[symmetric] gc_mark_object_def
  by (simp add: gc_mark_objects.simps(2) split: option.splits)

lemma gc_mark_objects_frame:
  "gc_mark_objects todo s =
     s\<lparr>marks := marks (gc_mark_objects todo s), weaks := weaks (gc_mark_objects todo s)\<rparr>"
proof (induction todo s rule: gc_mark_objects.induct)
  case (1 s)
  then show ?case by simp
next
  case (2 a todo s)
  show ?case
  proof (cases "is_marked s a")
    case True
    with 2(1) show ?thesis by (simp add: gc_mark_objects.simps(2))
  next
    case False
    show ?thesis
    proof (cases "obj_at s a")
      case None
      from 2(2)[OF False None] False None show ?thesis
        by (simp add: gc_mark_objects.simps(2) mark_def)
    next
      case (Some ob)
      show ?thesis
      proof (cases "tt ob = PIC_TYPE_WEAK")
        case True
        from 2(3)[OF False Some True] False Some True show ?thesis
          by (simp add: gc_mark_objects.simps(2) mark_def)
      next
        case nw: False
        from 2(4)[OF False Some nw] False Some nw show ?thesis
          by (simp add: gc_mark_objects.simps(2) mark_def)
      qed
    qed
  qed
qed

lemma gc_mark_objects_fields [simp]:
  "cp (gc_mark_objects todo s) = cp s" "stack (gc_mark_objects todo s) = stack s"
  "callinfo (gc_mark_objects todo s) = callinfo s" "arena (gc_mark_objects todo s) = arena s"
  "arena_idx (gc_mark_objects todo s) = arena_idx s" "ireps (gc_mark_objects todo s) = ireps s"
  "globals (gc_mark_objects todo s) = globals s" "macros (gc_mark_objects todo s) = macros s"
  "err (gc_mark_objects todo s) = err s" "features (gc_mark_objects todo s) = features s"
  "ltable (gc_mark_objects todo s) = ltable s" "oblist (gc_mark_objects todo s) = oblist s"
  "pages (gc_mark_objects todo s) = pages s" "gc_enable (gc_mark_objects todo s) = gc_enable s"
  by (subst gc_mark_objects_frame, simp)+

lemma gc_mark_as_objects: "gc_mark s v = gc_mark_objects (obj_ptrs [v]) s"
  by (cases v) (simp_all add: gc_mark_def gc_mark_object_def)

lemma gc_roots_mark [simp]: "gc_roots (gc_mark_objects todo s) = gc_roots s"
  by (simp add: gc_roots_def arena_roots_def)

lemma obj_at_mark [simp]: "obj_at (gc_mark_objects todo s) = obj_at s"
  by (simp add: obj_at_def fun_eq_iff)

lemma weak_hash_mark [simp]: "weak_hash (gc_mark_objects todo s) = weak_hash s"
  by (simp add: weak_hash_def fun_eq_iff)

lemma gc_mark_phase_roots:
  "weaks s = [] \<Longrightarrow> gc_mark_phase s = Inr (gc_mark_weaks (gc_mark_objects (gc_roots s) s))"
  by (simp add: gc_mark_phase_def Let_def gc_mark_as_objects gc_roots_def arena_roots_def
      gc_mark_objects_append[symmetric])

lemma gc_mark_objects_inv:
  assumes "P todo s"
    and skip: "\<And>a todo s. P (a # todo) s \<Longrightarrow> a \<in> marks s \<Longrightarrow> P todo s"
    and dangling: "\<And>a todo s. P (a # todo) s \<Longrightarrow> a \<notin> marks s \<Longrightarrow> obj_at s a = None \<Longrightarrow>
       P todo (mark s a)"
    and weak: "\<And>a todo s ob. P (a # todo) s \<Longrightarrow> a \<notin> marks s \<Longrightarrow> obj_at s a = Some ob \<Longrightarrow>
       tt ob = PIC_TYPE_WEAK \<Longrightarrow> P todo ((mark s a)\<lparr>weaks := a # weaks s\<rparr>)"
    and trace: "\<And>a todo s ob. P (a # todo) s \<Longrightarrow> a \<notin> marks s \<Longrightarrow> obj_at s a = Some ob \<Longrightarrow>
       tt ob \<noteq> PIC_TYPE_WEAK \<Longrightarrow> P (trace_refs ob @ todo) (mark s a)"
  shows "P [] (gc_mark_objects todo s)"
  using assms(1)
proof (induction todo s rule: gc_mark_objects.induct)
  case (1 s)
  then show ?case by simp
next
  case (2 a todo s)
  show ?case
  proof (cases "is_marked s a")
    case True
    then have "a \<in> marks s" by (simp add: is_marked_def)
    from 2(1)[OF True skip[OF 2(5) this]] True show ?thesis
      by (simp add: gc_mark_objects.simps(2))
  next
    case False
    then have nm: "a \<notin> marks s" by (simp add: is_marked_def)
    show ?thesis
    proof (cases "obj_at s a")
      case None
      from 2(2)[OF False None dangling[OF 2(5) nm None]] False None show ?thesis
        by (simp add: gc_mark_objects.simps(2))
    next
      case (Some ob)
      show ?thesis
      proof (cases "tt ob = PIC_TYPE_WEAK")
        case True
        from 2(3)[OF False Some True weak[OF 2(5) nm Some True]] False Some True show ?thesis
          by (simp add: gc_mark_objects.simps(2))
      next
        case nw: False
        from 2(4)[OF False Some nw trace[OF 2(5) nm Some nw]] False Some nw show ?thesis
          by (simp add: gc_mark_objects.simps(2))
      qed
    qed
  qed
qed

lemma obj_at_mark_upd [simp]:
  "obj_at (mark s a) = obj_at s" "obj_at (s\<lparr>weaks := w\<rparr>) = obj_at s"
  "obj_at (s\<lparr>marks := m\<rparr>) = obj_at s"
  by (simp_all add: obj_at_def mark_def fun_eq_iff)

lemma marks_mark [simp]: "marks (mark s a) = insert a (marks s)" "weaks (mark s a) = weaks s"
  by (simp_all add: mark_def)

lemma trace_refs_weak: "tt ob = PIC_TYPE_WEAK \<Longrightarrow> trace_refs ob = []"
  by (simp add: trace_refs_def)

lemma mark_closed:
  assumes "closed_upto (set todo \<union> T) s"
  shows "closed_upto T (gc_mark_objects todo s)"
proof -
  have "closed_upto (set [] \<union> T) (gc_mark_objects todo s)"
  proof (rule gc_mark_objects_inv[where P = "\<lambda>todo s. closed_upto (set todo \<union> T) s", OF assms],
      goal_cases)
    case (1 a todo s)
    then show ?case unfolding closed_upto_def by fastforce
  next
    case (2 a todo s)
    then show ?case unfolding closed_upto_def by fastforce
  next
    case (3 a todo s ob)
    then show ?case unfolding closed_upto_def by (fastforce simp: trace_refs_weak)
  next
    case (4 a todo s ob)
    then show ?case unfolding closed_upto_def by fastforce
  qed
  then show ?thesis by simp
qed

lemma mark_chain_ok:
  assumes "chain_ok s"
  shows "chain_ok (gc_mark_objects todo s)"
  by (rule gc_mark_objects_inv[where P = "\<lambda>todo s. chain_ok s", OF assms])
     (auto simp: chain_ok_def)

lemma mark_sound:
  assumes "ref_closed s R" "marks s \<subseteq> R" "set todo \<subseteq> R"
  shows "marks (gc_mark_objects todo s) \<subseteq> R"
proof -
  have "ref_closed (gc_mark_objects todo s) R \<and> marks (gc_mark_objects todo s) \<subseteq> R \<and> set [] \<subseteq> R"
  proof (rule gc_mark_objects_inv[where P = "\<lambda>todo s. ref_closed s R \<and> marks s \<subseteq> R \<and> set todo \<subseteq> R"],
      goal_cases)
    case 1
    from assms show ?case by simp
  next
    case (5 a todo s ob)
    then have "a \<in> R" by simp
    with 5 have "set (trace_refs ob) \<subseteq> R" unfolding ref_closed_def by blast
    with 5 show ?case by (simp add: ref_closed_def)
  qed (auto simp: ref_closed_def)
  then show ?thesis by simp
qed

lemma obj_at_cong: "objs s = objs s0 \<Longrightarrow> obj_at s = obj_at s0"
  unfolding obj_at_def by simp

lemma weak_hash_cong: "objs s = objs s0 \<Longrightarrow> weak_hash s = weak_hash s0"
proof -
  assume "objs s = objs s0"
  then have "obj_at s = obj_at s0" by (rule obj_at_cong)
  then have "\<And>w. weak_hash s w = weak_hash s0 w" unfolding weak_hash_def by simp
  then show ?thesis by blast
qed

lemma ref_closed_reachable:
  assumes "objs s = objs s0"
  shows "ref_closed s (reachable s0)"
proof -
  have e: "obj_at s = obj_at s0" using assms by (rule obj_at_cong)
  show ?thesis unfolding ref_closed_def reachable_def e by (blast intro: reach_ref)
qed

lemma closed_upto_mono: "closed_upto T s \<Longrightarrow> T \<subseteq> T' \<Longrightarrow> closed_upto T' s"
  unfolding closed_upto_def by blast

lemma weaks_mark_mono: "set (weaks s) \<subseteq> set (weaks (gc_mark_objects todo s))"
proof -
  have "set (weaks s) \<subseteq> set (weaks (gc_mark_objects todo s)) \<and> True"
    by (rule gc_mark_objects_inv[where P = "\<lambda>todo t. set (weaks s) \<subseteq> set (weaks t) \<and> True"]) auto
  then show ?thesis by simp
qed

lemma mark_inv_mark:
  assumes "mark_inv s0 s" "set todo \<subseteq> reachable s0"
  shows "mark_inv s0 (gc_mark_objects todo s)"
  unfolding mark_inv_def
proof (intro conjI)
  from assms(1) have o: "objs s = objs s0" by (simp add: mark_inv_def)
  then show "objs (gc_mark_objects todo s) = objs s0" by simp
  show "set (gc_roots s0) \<subseteq> marks (gc_mark_objects todo s)"
    using assms(1) gc_mark_objects_mono[of s todo] by (auto simp: mark_inv_def)
  show "marks (gc_mark_objects todo s) \<subseteq> reachable s0"
    using assms ref_closed_reachable[OF o] by (intro mark_sound) (simp_all add: mark_inv_def)
  show "chain_ok (gc_mark_objects todo s)"
    using assms(1) by (intro mark_chain_ok) (simp add: mark_inv_def)
  show "closed_upto {} (gc_mark_objects todo s)"
    using assms(1) by (intro mark_closed) (auto simp: mark_inv_def intro: closed_upto_mono)
qed

lemma mark_inv_init:
  assumes "marks s = {}" "weaks s = []"
  shows "mark_inv s (gc_mark_objects (gc_roots s) s)"
  unfolding mark_inv_def
proof (intro conjI)
  show "objs (gc_mark_objects (gc_roots s) s) = objs s" by simp
  show "set (gc_roots s) \<subseteq> marks (gc_mark_objects (gc_roots s) s)"
    by (rule gc_mark_objects_todo)
  have "set (gc_roots s) \<subseteq> reachable s"
    by (auto simp: reachable_def intro: reach_root)
  then show "marks (gc_mark_objects (gc_roots s) s) \<subseteq> reachable s"
    using assms ref_closed_reachable[of s s] by (intro mark_sound) simp_all
  show "chain_ok (gc_mark_objects (gc_roots s) s)"
    using assms by (intro mark_chain_ok) (simp add: chain_ok_def)
  show "closed_upto {} (gc_mark_objects (gc_roots s) s)"
    using assms by (intro mark_closed) (simp add: closed_upto_def)
qed

lemma card_new_marks:
  assumes fin: "finite V" and "M \<subseteq> M1" "M1 \<subseteq> M2"
    and "n1 \<le> card ((M1 - M) \<inter> V)" "n2 \<le> card ((M2 - M1) \<inter> V)"
  shows "n1 + n2 \<le> card ((M2 - M) \<inter> V)"
proof -
  have d: "((M1 - M) \<inter> V) \<inter> ((M2 - M1) \<inter> V) = {}" by blast
  have u: "((M1 - M) \<inter> V) \<union> ((M2 - M1) \<inter> V) = (M2 - M) \<inter> V" using assms(2,3) by blast
  have "card ((M1 - M) \<inter> V) + card ((M2 - M1) \<inter> V) = card ((M2 - M) \<inter> V)"
    using card_Un_disjoint[OF _ _ d] fin u by simp
  with assms(4,5) show ?thesis by linarith
qed

lemma card_new_mark_one:
  assumes "finite V" "p \<in> V" "p \<notin> M" "p \<in> M1"
  shows "1 \<le> card ((M1 - M) \<inter> V)"
proof -
  have "p \<in> (M1 - M) \<inter> V" using assms by blast
  moreover have "finite ((M1 - M) \<inter> V)" using assms(1) by blast
  ultimately have "card ((M1 - M) \<inter> V) \<noteq> 0" by auto
  then show ?thesis by linarith
qed

lemma mark_weak_entries_inv:
  assumes "mark_weak_entries es (j, s) = (j', s')" "mark_inv s0 s" "w \<in> set (weaks s)"
    "set es \<subseteq> set (weak_hash s0 w)"
  shows "mark_inv s0 s' \<and> set (weaks s) \<subseteq> set (weaks s') \<and> marks s \<subseteq> marks s' \<and>
    (\<exists>n. j' = j + of_nat n \<and> n \<le> card ((marks s' - marks s) \<inter> weak_vals (objs s0)) \<and>
       (n = 0 \<longrightarrow> s' = s \<and> (\<forall>k p. (k, Obj_val p) \<in> set es \<longrightarrow> k \<in> marks s \<longrightarrow> p \<in> marks s)))"
  using assms
proof (induction es arbitrary: j s)
  case Nil
  then show ?case by simp
next
  case (Cons e es)
  obtain key val where e: "e = (key, val)" by (cases e)
  from Cons.prems(2) have o: "objs s = objs s0" and ch: "chain_ok s" and snd: "marks s \<subseteq> reachable s0"
    by (simp_all add: mark_inv_def)
  show ?case
  proof (cases "is_marked s key \<and> (\<exists>p. val = Obj_val p \<and> \<not> is_marked s p)")
    case True
    then obtain p where p: "val = Obj_val p" "p \<notin> marks s" "key \<in> marks s"
      by (auto simp: is_marked_def)
    let ?s1 = "gc_mark_objects [p] s"
    from Cons.prems(1) e p have run: "mark_weak_entries es (j + 1, ?s1) = (j', s')"
      by (simp add: is_marked_def gc_mark_as_objects)
    have wm: "w \<in> marks s" and "\<exists>ob. obj_at s w = Some ob \<and> tt ob = PIC_TYPE_WEAK"
      using ch Cons.prems(3) by (auto simp: chain_ok_def)
    then obtain ob where ob: "obj_at s0 w = Some ob" "tt ob = PIC_TYPE_WEAK"
      using obj_at_cong[OF o] by auto
    have ent: "(key, Obj_val p) \<in> set (weak_hash s0 w)" using Cons.prems(4) e p by simp
    have "reach s0 {} p"
      using reach_weak[of s0 "{}" w ob key p] ob ent wm p(3) snd
      by (auto simp: reachable_def)
    then have inv1: "mark_inv s0 ?s1"
      using Cons.prems(2) by (intro mark_inv_mark) (simp_all add: reachable_def)
    have w1: "w \<in> set (weaks ?s1)" using Cons.prems(3) weaks_mark_mono[of s "[p]"] by blast
    have es: "set es \<subseteq> set (weak_hash s0 w)" using Cons.prems(4) by simp
    from Cons.IH[OF run inv1 w1 es] obtain n where
      ih: "mark_inv s0 s'" "set (weaks ?s1) \<subseteq> set (weaks s')" "marks ?s1 \<subseteq> marks s'"
        "j' = j + 1 + of_nat n" "n \<le> card ((marks s' - marks ?s1) \<inter> weak_vals (objs s0))"
      by blast
    have m1: "marks s \<subseteq> marks ?s1" by (rule gc_mark_objects_mono)
    have p1: "p \<in> marks ?s1" using gc_mark_objects_todo[of "[p]" s] by simp
    have pv: "p \<in> weak_vals (objs s0)" using weak_hash_vals[OF ent] .
    have "1 \<le> card ((marks ?s1 - marks s) \<inter> weak_vals (objs s0))"
      using finite_weak_vals pv p(2) p1 by (rule card_new_mark_one)
    from card_new_marks[OF finite_weak_vals m1 ih(3) this ih(5)]
    have "Suc n \<le> card ((marks s' - marks s) \<inter> weak_vals (objs s0))" by simp
    moreover have "j' = j + of_nat (Suc n)" using ih(4) by simp
    moreover have "set (weaks s) \<subseteq> set (weaks s')" using weaks_mark_mono[of s "[p]"] ih(2) by blast
    moreover have "marks s \<subseteq> marks s'" using m1 ih(3) by blast
    ultimately show ?thesis using ih(1) by blast
  next
    case False
    then have run: "mark_weak_entries es (j, s) = (j', s')"
      using Cons.prems(1) e by (auto split: pic_value.splits if_splits)
    have es: "set es \<subseteq> set (weak_hash s0 w)" using Cons.prems(4) by simp
    from Cons.IH[OF run Cons.prems(2,3) es] obtain n where
      ih: "mark_inv s0 s'" "set (weaks s) \<subseteq> set (weaks s')" "marks s \<subseteq> marks s'"
        "j' = j + of_nat n" "n \<le> card ((marks s' - marks s) \<inter> weak_vals (objs s0))"
        "n = 0 \<longrightarrow> s' = s \<and> (\<forall>k p. (k, Obj_val p) \<in> set es \<longrightarrow> k \<in> marks s \<longrightarrow> p \<in> marks s)"
      by blast
    have "n = 0 \<longrightarrow> (\<forall>k p. (k, Obj_val p) \<in> set (e # es) \<longrightarrow> k \<in> marks s \<longrightarrow> p \<in> marks s)"
      using ih(6) False e by (auto simp: is_marked_def)
    with ih show ?thesis by blast
  qed
qed

lemma mark_weak_chain_inv:
  assumes "mark_weak_chain ws (j, s) = (j', s')" "mark_inv s0 s" "set ws \<subseteq> set (weaks s)"
  shows "mark_inv s0 s' \<and> set (weaks s) \<subseteq> set (weaks s') \<and> marks s \<subseteq> marks s' \<and>
    (\<exists>n. j' = j + of_nat n \<and> n \<le> card ((marks s' - marks s) \<inter> weak_vals (objs s0)) \<and>
       (n = 0 \<longrightarrow> s' = s \<and>
          (\<forall>w \<in> set ws. \<forall>k p. (k, Obj_val p) \<in> set (weak_hash s0 w) \<longrightarrow> k \<in> marks s \<longrightarrow> p \<in> marks s)))"
  using assms
proof (induction ws arbitrary: j s)
  case Nil
  then show ?case by simp
next
  case (Cons w ws)
  from Cons.prems(2) have o: "objs s = objs s0" by (simp add: mark_inv_def)
  obtain j1 s1 where step: "mark_weak_entries (weak_hash s w) (j, s) = (j1, s1)"
    by (cases "mark_weak_entries (weak_hash s w) (j, s)")
  with Cons.prems(1) have run: "mark_weak_chain ws (j1, s1) = (j', s')" by simp
  have w: "w \<in> set (weaks s)" using Cons.prems(3) by simp
  have hs: "set (weak_hash s w) \<subseteq> set (weak_hash s0 w)" using weak_hash_cong[OF o] by simp
  from mark_weak_entries_inv[OF step Cons.prems(2) w hs] obtain n1 where
    a: "mark_inv s0 s1" "set (weaks s) \<subseteq> set (weaks s1)" "marks s \<subseteq> marks s1"
      "j1 = j + of_nat n1" "n1 \<le> card ((marks s1 - marks s) \<inter> weak_vals (objs s0))"
      "n1 = 0 \<longrightarrow> s1 = s \<and>
         (\<forall>k p. (k, Obj_val p) \<in> set (weak_hash s w) \<longrightarrow> k \<in> marks s \<longrightarrow> p \<in> marks s)"
    by blast
  have ws: "set ws \<subseteq> set (weaks s1)" using Cons.prems(3) a(2) by auto
  from Cons.IH[OF run a(1) ws] obtain n2 where
    b: "mark_inv s0 s'" "set (weaks s1) \<subseteq> set (weaks s')" "marks s1 \<subseteq> marks s'"
      "j' = j1 + of_nat n2" "n2 \<le> card ((marks s' - marks s1) \<inter> weak_vals (objs s0))"
      "n2 = 0 \<longrightarrow> s' = s1 \<and>
         (\<forall>w \<in> set ws. \<forall>k p. (k, Obj_val p) \<in> set (weak_hash s0 w) \<longrightarrow> k \<in> marks s1 \<longrightarrow> p \<in> marks s1)"
    by blast
  have c: "n1 + n2 \<le> card ((marks s' - marks s) \<inter> weak_vals (objs s0))"
    by (rule card_new_marks[OF finite_weak_vals a(3) b(3) a(5) b(5)])
  have j: "j' = j + of_nat (n1 + n2)" using a(4) b(4) by simp
  have z: "n1 + n2 = 0 \<longrightarrow> s' = s \<and>
          (\<forall>w \<in> set (w # ws). \<forall>k p. (k, Obj_val p) \<in> set (weak_hash s0 w) \<longrightarrow>
             k \<in> marks s \<longrightarrow> p \<in> marks s)"
    using a(6) b(6) weak_hash_cong[OF o] by auto
  from a(2,3) b(1,2,3) c j z show ?case by blast
qed

lemma card_weak_vals:
  assumes "ptrs_ok s"
  shows "card (weak_vals (objs s)) < 2 ^ 64"
proof -
  have "weak_vals (objs s) \<subseteq> {1 ..< 2 ^ 64}" using assms by (auto simp: ptrs_ok_def)
  then have "card (weak_vals (objs s)) \<le> card {1 ..< (2 :: nat) ^ 64}"
    by (intro card_mono) simp_all
  then show ?thesis by simp
qed

lemma of_nat_zero_small:
  assumes "(of_nat n :: size_t) = 0" "n < 2 ^ 64"
  shows "n = 0"
proof -
  have "unat (of_nat n :: size_t) = n mod 2 ^ 64" by (simp add: unat_of_nat)
  with assms(2) have "unat (of_nat n :: size_t) = n" by simp
  with assms(1) show ?thesis by simp
qed

lemma gc_mark_weaks_inv:
  assumes "mark_inv s0 s" "ptrs_ok s0"
  shows "mark_inv s0 (gc_mark_weaks s) \<and> eph_closed (gc_mark_weaks s) \<and>
    mark_weak_chain (weaks (gc_mark_weaks s)) (0, gc_mark_weaks s) = (0, gc_mark_weaks s)"
  using assms(1)
proof (induction s rule: gc_mark_weaks.induct)
  case (1 s)
  obtain j s' where run: "mark_weak_chain (weaks s) (0, s) = (j, s')"
    by (cases "mark_weak_chain (weaks s) (0, s)")
  from mark_weak_chain_inv[OF run "1.prems"] obtain n where
    a: "mark_inv s0 s'" "j = of_nat n" "n \<le> card ((marks s' - marks s) \<inter> weak_vals (objs s0))"
      "n = 0 \<longrightarrow> s' = s \<and>
          (\<forall>w \<in> set (weaks s). \<forall>k p. (k, Obj_val p) \<in> set (weak_hash s0 w) \<longrightarrow>
             k \<in> marks s \<longrightarrow> p \<in> marks s)"
    by auto
  show ?case
  proof (cases "j > 0")
    case True
    with "1.IH"[OF run[symmetric] True a(1)] run show ?thesis
      by (simp add: gc_mark_weaks.simps[of s])
  next
    case False
    then have j0: "j = 0" by (simp add: word_greater_zero_iff)
    have "card ((marks s' - marks s) \<inter> weak_vals (objs s0)) \<le> card (weak_vals (objs s0))"
      by (intro card_mono finite_weak_vals) blast
    with a(3) card_weak_vals[OF assms(2)] have "n < 2 ^ 64" by linarith
    with a(2) j0 have "n = 0" using of_nat_zero_small[of n] by simp
    with a(4) have same: "s' = s" and cl: "\<forall>w \<in> set (weaks s). \<forall>k p.
        (k, Obj_val p) \<in> set (weak_hash s0 w) \<longrightarrow> k \<in> marks s \<longrightarrow> p \<in> marks s"
      by simp_all
    have res: "gc_mark_weaks s = s" using run j0 same by (simp add: gc_mark_weaks.simps[of s])
    from "1.prems" have "objs s = objs s0" by (simp add: mark_inv_def)
    then have "weak_hash s = weak_hash s0" by (rule weak_hash_cong)
    with cl have "eph_closed s" by (simp add: eph_closed_def)
    with res "1.prems" run j0 same show ?thesis by simp
  qed
qed

lemma reachable_marked:
  assumes inv: "mark_inv s0 s" and eph: "eph_closed s"
  shows "marks s = reachable s0"
proof
  show "marks s \<subseteq> reachable s0" using inv by (simp add: mark_inv_def)
  from inv have "objs s = objs s0" by (simp add: mark_inv_def)
  then have o: "obj_at s = obj_at s0" and wh: "weak_hash s = weak_hash s0"
    by (rule obj_at_cong, rule weak_hash_cong)
  from inv have roots: "set (gc_roots s0) \<subseteq> marks s" and ch: "chain_ok s"
    and cl: "closed_upto {} s"
    by (simp_all add: mark_inv_def)
  have "a \<in> marks s" if "reach s0 {} a" for a
    using that
  proof (induction rule: reach.induct)
    case (reach_root a)
    with roots show ?case by blast
  next
    case (reach_ref a ob b)
    from reach_ref.hyps(2) o have "obj_at s a = Some ob" by simp
    with cl reach_ref.IH have "set (trace_refs ob) \<subseteq> marks s"
      unfolding closed_upto_def by blast
    with reach_ref.hyps(3) show ?case by blast
  next
    case (reach_weak w ob k p)
    from reach_weak.hyps(2) o have "obj_at s w = Some ob" by simp
    with ch reach_weak.IH(1) reach_weak.hyps(3) have w: "w \<in> set (weaks s)"
      unfolding chain_ok_def by blast
    from reach_weak.hyps(4) wh have "(k, Obj_val p) \<in> set (weak_hash s w)" by simp
    with eph w reach_weak.IH(2) show ?case unfolding eph_closed_def by blast
  qed
  then show "reachable s0 \<subseteq> marks s" by (auto simp: reachable_def)
qed

lemma gc_mark_phase_reachable:
  assumes "marks s = {}" "weaks s = []" "ptrs_ok s"
  shows "\<exists>s'. gc_mark_phase s = Inr s' \<and> marks s' = reachable s \<and> objs s' = objs s \<and>
           chain_ok s' \<and> eph_closed s' \<and> mark_weak_chain (weaks s') (0, s') = (0, s')"
proof -
  let ?s1 = "gc_mark_objects (gc_roots s) s"
  let ?s' = "gc_mark_weaks ?s1"
  have "mark_inv s ?s1" using assms(1,2) by (rule mark_inv_init)
  from gc_mark_weaks_inv[OF this assms(3)]
  have i: "mark_inv s ?s'" and e: "eph_closed ?s'"
    and f: "mark_weak_chain (weaks ?s') (0, ?s') = (0, ?s')"
    by blast+
  have r: "gc_mark_phase s = Inr ?s'" by (rule gc_mark_phase_roots[OF assms(2)])
  have m: "marks ?s' = reachable s" using i e by (rule reachable_marked)
  from i have "objs ?s' = objs s" "chain_ok ?s'" unfolding mark_inv_def by blast+
  with r m e f show ?thesis by blast
qed

subsection \<open>Weak maps\<close>

lemma reach_mono: "reach s Y a \<Longrightarrow> X \<subseteq> Y \<Longrightarrow> reach s X a"
proof (induction rule: reach.induct)
  case (reach_root a)
  then show ?case by (blast intro: reach.reach_root)
next
  case (reach_ref a ob b)
  then show ?case by (blast intro: reach.reach_ref)
next
  case (reach_weak w ob k p)
  from reach_weak.hyps(5) reach_weak.prems have "(w, k) \<notin> X" by blast
  with reach_weak show ?case by (blast intro: reach.reach_weak)
qed

lemma reach_without_slot:
  "reach s {} a \<Longrightarrow> reach s {(W, K)} a \<or> reach s {(W, K)} K"
proof (induction rule: reach.induct)
  case (reach_root a)
  then show ?case by (blast intro: reach.reach_root)
next
  case (reach_ref a ob b)
  then show ?case by (blast intro: reach.reach_ref)
next
  case (reach_weak w ob k p)
  show ?case
  proof (cases "reach s {(W, K)} K")
    case True
    then show ?thesis by simp
  next
    case False
    with reach_weak.IH have a: "reach s {(W, K)} w" "reach s {(W, K)} k" by blast+
    with False have "(w, k) \<noteq> (W, K)" by auto
    then have "(w, k) \<notin> {(W, K)}" by simp
    from reach.reach_weak[OF a(1) reach_weak.hyps(2,3,4) this a(2)] show ?thesis by simp
  qed
qed

lemma reach_key_iff: "reach s {(W, K)} K \<longleftrightarrow> reach s {} K"
  using reach_without_slot[of s K W K] reach_mono[of s "{(W, K)}" K "{}"] by blast

lemma weak_purge_alt: "weak_purge s w = s\<lparr>objs := AList.map_entry w (purge_hash (marks s)) (objs s)\<rparr>"
proof -
  have "purge_hash (marks s) =
      (\<lambda>ob. case body ob of
              Weak_obj h \<Rightarrow> ob\<lparr>body := Weak_obj (filter (\<lambda>(key, val). is_marked s key) h)\<rparr>
            | _ \<Rightarrow> ob)"
    unfolding purge_hash_def is_marked_def by (rule refl)
  then show ?thesis by (simp add: weak_purge_def)
qed

lemma purge_hash_idem: "purge_hash M (purge_hash M ob) = purge_hash M ob"
  by (cases "body ob") (simp_all add: purge_hash_def)

lemma obj_at_weak_purge:
  "obj_at (weak_purge s w) a =
     (if a = w then map_option (purge_hash (marks s)) (obj_at s a) else obj_at s a)"
  by (simp add: weak_purge_alt obj_at_def map_of_map_entry split: option.splits)

lemma gc_sweep_weaks_obj_at:
  "obj_at (gc_sweep_weaks s) a =
     (if a \<in> set (weaks s) then map_option (purge_hash (marks s)) (obj_at s a) else obj_at s a)"
proof (induction s rule: gc_sweep_weaks.induct)
  case (1 s)
  show ?case
  proof (cases "weaks s")
    case Nil
    then show ?thesis by (simp add: gc_sweep_weaks.simps[of s])
  next
    case (Cons w ws)
    let ?t = "(weak_purge s w)\<lparr>weaks := ws\<rparr>"
    have t: "obj_at ?t = obj_at (weak_purge s w)" "marks ?t = marks s" "weaks ?t = ws"
      by (simp_all add: obj_at_def)
    from "1.IH"[OF Cons] Cons have "obj_at (gc_sweep_weaks s) a =
        (if a \<in> set ws then map_option (purge_hash (marks s)) (obj_at (weak_purge s w) a)
         else obj_at (weak_purge s w) a)"
      by (simp add: gc_sweep_weaks.simps[of s] t)
    then show ?thesis
      using Cons by (cases "obj_at s a") (auto simp: obj_at_weak_purge purge_hash_idem)
  qed
qed

lemma gc_sweep_weaks_marks [simp]: "marks (gc_sweep_weaks s) = marks s"
  using gc_sweep_weaks_frame[of s] by simp

lemma weak_hash_purged:
  "obj_at t w = map_option (purge_hash M) (obj_at s w) \<Longrightarrow>
     weak_hash t w = filter (\<lambda>(key, val). key \<in> M) (weak_hash s w)"
proof (cases "obj_at s w")
  case None
  assume "obj_at t w = map_option (purge_hash M) (obj_at s w)"
  with None show ?thesis by (simp add: weak_hash_def)
next
  case (Some ob)
  assume "obj_at t w = map_option (purge_hash M) (obj_at s w)"
  with Some show ?thesis by (cases "body ob") (simp_all add: weak_hash_def purge_hash_def)
qed

lemma gc_sweep_weaks_hash:
  "weak_hash (gc_sweep_weaks s) w =
     (if w \<in> set (weaks s) then filter (\<lambda>(key, val). key \<in> marks s) (weak_hash s w)
      else weak_hash s w)"
proof (cases "w \<in> set (weaks s)")
  case True
  then have "obj_at (gc_sweep_weaks s) w = map_option (purge_hash (marks s)) (obj_at s w)"
    by (simp add: gc_sweep_weaks_obj_at)
  from weak_hash_purged[OF this] True show ?thesis by simp
next
  case False
  then have "obj_at (gc_sweep_weaks s) w = obj_at s w" by (simp add: gc_sweep_weaks_obj_at)
  with False show ?thesis by (simp add: weak_hash_def)
qed

lemmas obj_simps = str_obj_def sym_obj_def weak_obj_def pair0_def

lemma st_weak_roots: "gc_roots st_weak = [8, 9, 16]"
proof -
  have "[0 ..< unat (2 :: size_t)] = [0, 1]" by (simp add: upt_rec)
  then show ?thesis by (simp add: gc_roots_def arena_roots_def st_weak_def)
qed

lemma st_weak_hash:
  "weak_hash st_weak 8 = [(11, Obj_val 12), (10, Obj_val 11), (9, Obj_val 10), (13, Obj_val 14)]"
  by (simp add: weak_hash_def obj_at_def st_weak_def weak_obj_def)

lemma st_weak_obj8: "obj_at st_weak 8 = Some (weak_obj [(11, Obj_val 12), (10, Obj_val 11), (9, Obj_val 10), (13, Obj_val 14)])"
  by (simp add: obj_at_def st_weak_def)

lemma st_weak_ptrs_ok: "ptrs_ok st_weak"
  unfolding ptrs_ok_def weak_vals_def
  by (auto simp: st_weak_def obj_simps)

lemma st_weak_reach_11: "reach st_weak {(8, 11)} 11"
proof -
  have r8: "reach st_weak {(8, 11)} 8" and r9: "reach st_weak {(8, 11)} 9"
    by (rule reach_root, simp add: st_weak_roots)+
  have w: "tt (weak_obj [(11, Obj_val 12), (10, Obj_val 11), (9, Obj_val 10), (13, Obj_val 14)]) = PIC_TYPE_WEAK"
    by (simp add: weak_obj_def)
  have r10: "reach st_weak {(8, 11)} 10"
    by (rule reach_weak[OF r8 st_weak_obj8 w _ _ r9]) (simp_all add: st_weak_hash)
  show ?thesis
    by (rule reach_weak[OF r8 st_weak_obj8 w _ _ r10]) (simp_all add: st_weak_hash)
qed

lemma st_weak_reach_sub: "reach st_weak X a \<Longrightarrow> a \<in> {8, 9, 10, 11, 12, 16, 17}"
proof (induction rule: reach.induct)
  case (reach_root a)
  then show ?case by (auto simp: st_weak_roots)
next
  case (reach_ref a ob b)
  then show ?case
    by (auto simp: obj_at_def st_weak_def obj_simps trace_refs_def)
next
  case (reach_weak w ob k p)
  from reach_weak.IH(1) reach_weak.hyps(2,3) have "w = 8"
    by (auto simp: obj_at_def st_weak_def obj_simps)
  with reach_weak.hyps(4) reach_weak.IH(2) show ?case
    by (auto simp: st_weak_hash)
qed

lemma pic_gc_enabled:
  "gc_enable s0 \<Longrightarrow> gc_mark_phase (gc_init be s0) = Inr sm \<Longrightarrow> pic_gc be s0 = gc_sweep_phase be sm"
  by (simp add: pic_gc_def)

lemma st_weak_reachable: "reachable st_weak = {8, 9, 10, 11, 12, 16, 17}"
proof
  show "reachable st_weak \<subseteq> {8, 9, 10, 11, 12, 16, 17}"
    using st_weak_reach_sub[of "{}"] by (auto simp: reachable_def)
  have r8: "reach st_weak {} 8" and r9: "reach st_weak {} 9" and r16: "reach st_weak {} 16"
    by (rule reach_root, simp add: st_weak_roots)+
  have w: "tt (weak_obj [(11, Obj_val 12), (10, Obj_val 11), (9, Obj_val 10), (13, Obj_val 14)]) = PIC_TYPE_WEAK"
    by (simp add: weak_obj_def)
  have r10: "reach st_weak {} 10"
    by (rule reach_weak[OF r8 st_weak_obj8 w _ _ r9]) (simp_all add: st_weak_hash)
  have r11: "reach st_weak {} 11"
    by (rule reach_weak[OF r8 st_weak_obj8 w _ _ r10]) (simp_all add: st_weak_hash)
  have r12: "reach st_weak {} 12"
    by (rule reach_weak[OF r8 st_weak_obj8 w _ _ r11]) (simp_all add: st_weak_hash)
  have "obj_at st_weak 16 = Some (sym_obj 17)" by (simp add: obj_at_def st_weak_def)
  from reach_ref[OF r16 this, of 17] have r17: "reach st_weak {} 17"
    by (simp add: sym_obj_def trace_refs_def)
  from r8 r9 r10 r11 r12 r16 r17 show "{8, 9, 10, 11, 12, 16, 17} \<subseteq> reachable st_weak"
    by (simp add: reachable_def)
qed

lemma st_weak_weak_objs:
  "{W \<in> reachable st_weak. \<exists>ob. obj_at st_weak W = Some ob \<and> tt ob = PIC_TYPE_WEAK} = {8}"
  unfolding st_weak_reachable
  by (auto simp: obj_at_def st_weak_def obj_simps)

text \<open>
  The collection of \<open>st_weak\<close> with the example back-end, evaluated step by step: the roots,
  the weak-map loop (three passes that mark one value each, and a last one that marks
  none), the sweep. The marks it computes are the reachable objects found above.
\<close>

lemma st_weak_fields:
  "objs st_weak =
     [(8, weak_obj [(11, Obj_val 12), (10, Obj_val 11), (9, Obj_val 10), (13, Obj_val 14)]),
      (9, str_obj 2), (10, str_obj 3), (11, str_obj 4), (12, pair0),
      (13, str_obj 5), (14, sym_obj 15), (15, str_obj 6), (16, sym_obj 17), (17, str_obj 7)]"
  "marks st_weak = {}" "weaks st_weak = []" "pages st_weak = [4, 3, 2]"
  "heap_priv st_weak =
     [(8, 1), (9, 1), (10, 1), (11, 1), (12, 1), (13, 1), (14, 1), (15, 1), (16, 1), (17, 1)]"
  "oblist st_weak = [(''foo'', Some 14), (''bar'', None), (''baz'', Some 16)]"
  "gc_enable st_weak" "fin_calls st_weak = []"
  by (simp_all add: st_weak_def)

lemma ev_roots_weak:
  "gc_mark_objects [8, 9, 16] st_weak = st_weak\<lparr>marks := {17, 16, 9, 8}, weaks := [8]\<rparr>"
  by (simp add: st_weak_fields gc_mark_objects.simps(2) mark_def is_marked_def obj_at_def
      trace_refs_def obj_simps)

lemma ev_weaks_weak:
  "gc_mark_weaks (st_weak\<lparr>marks := {17, 16, 9, 8}, weaks := [8]\<rparr>) =
     st_weak\<lparr>marks := {12, 11, 10, 17, 16, 9, 8}, weaks := [8]\<rparr>"
  by (simp add: st_weak_fields gc_mark_weaks.simps gc_mark_def gc_mark_object_def weak_hash_def
      gc_mark_objects.simps(2) mark_def is_marked_def obj_at_def trace_refs_def obj_simps)

lemma ev_sweep_weak:
  "gc_sweep_phase ex_backend (st_weak\<lparr>marks := {12, 11, 10, 17, 16, 9, 8}, weaks := [8]\<rparr>) =
     Inr st_weak_swept"
  by (simp add: st_weak_swept_def st_weak_fields gc_sweep_phase_def gc_sweep_weaks.simps
      weak_purge_def gc_sweep_oblist_def ex_backend_fields ex_gc_sweep_page_def
      gc_finalize_object_def fin_call_def is_marked_def obj_at_def obj_simps insert_Diff_if)

lemma ev_gc_weak: "pic_gc ex_backend st_weak = Inr st_weak_swept"
proof -
  have "gc_mark_phase (gc_init ex_backend st_weak) =
      Inr (st_weak\<lparr>marks := {12, 11, 10, 17, 16, 9, 8}, weaks := [8]\<rparr>)"
    by (simp add: st_weak_fields ex_backend_fields gc_mark_phase_roots st_weak_roots
        ev_roots_weak ev_weaks_weak)
  from pic_gc_enabled[OF st_weak_fields(7) this] show ?thesis
    unfolding ev_sweep_weak .
qed

lemma st_weak_swept_fields:
  "weak_hash st_weak_swept 8 = [(11, Obj_val 12), (10, Obj_val 11), (9, Obj_val 10)]"
  "obj_at st_weak_swept 12 = Some pair0" "obj_at st_weak_swept 14 = None"
  "oblist st_weak_swept = [(''bar'', None), (''baz'', Some 16)]"
  by (simp_all add: st_weak_swept_def weak_hash_def obj_at_def weak_obj_def)

text \<open>
  C1: a collection that starts with no object marked and an empty chain (the state after
  \<^verbatim>\<open>gc_init\<close>) and whose weak maps hold addresses of objects. The mark phase returns; it
  has marked the reachable objects and no other, where reaching an object through a slot
  of a weak map needs the weak map and the key of the slot to be reached; the chain holds
  the reachable weak maps, and one more pass over it marks nothing (the counter stays 0).
  The first loop of the sweep changes no mark, and keeps of a weak map of the chain the
  slots whose key is marked. So for a slot \<open>(k, v)\<close> of a weak map \<open>W\<close> of the chain: the slot
  is kept and \<open>v\<close>, if it is an object, is marked when the pages are swept exactly when \<open>k\<close> is
  reached without this slot; and the slot is kept exactly when \<open>k\<close> is marked. This is C1
  for the weak maps that the mark phase reaches, which are those of the chain: the table
  of a weak map that is not reached is left as it is, and the weak map is not marked.
\<close>

theorem weak_key_liveness:
  assumes "marks s = {}" "weaks s = []" "ptrs_ok s"
  shows "\<exists>sm. gc_mark_phase s = Inr sm \<and>
    (\<forall>be s0. gc_enable s0 \<and> gc_init be s0 = s \<longrightarrow> pic_gc be s0 = gc_sweep_phase be sm) \<and>
    marks sm = reachable s \<and> marks (gc_sweep_weaks sm) = marks sm \<and>
    set (weaks sm) = {W \<in> reachable s. \<exists>ob. obj_at s W = Some ob \<and> tt ob = PIC_TYPE_WEAK} \<and>
    mark_weak_chain (weaks sm) (0, sm) = (0, sm) \<and>
    (\<forall>W k v. W \<in> set (weaks sm) \<and> (k, v) \<in> set (weak_hash s W) \<longrightarrow>
       (((k, v) \<in> set (weak_hash (gc_sweep_weaks sm) W) \<and>
         (\<forall>p. v = Obj_val p \<longrightarrow> p \<in> marks (gc_sweep_weaks sm))) \<longleftrightarrow> reach s {(W, k)} k) \<and>
       ((k, v) \<in> set (weak_hash (gc_sweep_weaks sm) W) \<longleftrightarrow> k \<in> marks sm)) \<and>
    (\<forall>W. weak_hash (gc_sweep_weaks sm) W =
       (if W \<in> set (weaks sm) then filter (\<lambda>(k, v). k \<in> marks sm) (weak_hash s W)
        else weak_hash s W))"
proof -
  from gc_mark_phase_reachable[OF assms] obtain sm where
    sm: "gc_mark_phase s = Inr sm" "marks sm = reachable s" "objs sm = objs s" "chain_ok sm"
      "eph_closed sm" "mark_weak_chain (weaks sm) (0, sm) = (0, sm)"
    by blast
  from sm(3) have o: "obj_at sm = obj_at s" and wh: "weak_hash sm = weak_hash s"
    by (rule obj_at_cong, rule weak_hash_cong)
  have hash: "weak_hash (gc_sweep_weaks sm) W =
       (if W \<in> set (weaks sm) then filter (\<lambda>(k, v). k \<in> marks sm) (weak_hash s W)
        else weak_hash s W)" for W
    using gc_sweep_weaks_hash[of sm W] wh by simp
  have chain: "set (weaks sm) = {W \<in> reachable s. \<exists>ob. obj_at s W = Some ob \<and> tt ob = PIC_TYPE_WEAK}"
    using sm(4) unfolding chain_ok_def o sm(2) .
  have entries: "(((k, v) \<in> set (weak_hash (gc_sweep_weaks sm) W) \<and>
         (\<forall>p. v = Obj_val p \<longrightarrow> p \<in> marks (gc_sweep_weaks sm))) \<longleftrightarrow> reach s {(W, k)} k) \<and>
       ((k, v) \<in> set (weak_hash (gc_sweep_weaks sm) W) \<longleftrightarrow> k \<in> marks sm)"
    if W: "W \<in> set (weaks sm)" and kv: "(k, v) \<in> set (weak_hash s W)" for W k v
  proof -
    have kept: "(k, v) \<in> set (weak_hash (gc_sweep_weaks sm) W) \<longleftrightarrow> k \<in> marks sm"
      using W kv by (simp add: hash)
    have live: "k \<in> marks sm \<longleftrightarrow> reach s {(W, k)} k"
      by (simp add: sm(2) reachable_def reach_key_iff)
    have val: "p \<in> marks sm" if "k \<in> marks sm" "v = Obj_val p" for p
      using sm(5) W kv that unfolding eph_closed_def wh by blast
    from kept live val show ?thesis by auto
  qed
  have gc: "pic_gc be s0 = gc_sweep_phase be sm" if "gc_enable s0 \<and> gc_init be s0 = s" for be s0
    using that sm(1) by (intro pic_gc_enabled) simp_all
  show ?thesis
  proof (intro exI[of _ sm] conjI)
    show "gc_mark_phase s = Inr sm" by (rule sm(1))
    show "\<forall>be s0. gc_enable s0 \<and> gc_init be s0 = s \<longrightarrow> pic_gc be s0 = gc_sweep_phase be sm"
      using gc by blast
    show "marks sm = reachable s" by (rule sm(2))
    show "marks (gc_sweep_weaks sm) = marks sm" by simp
    show "set (weaks sm) = {W \<in> reachable s. \<exists>ob. obj_at s W = Some ob \<and> tt ob = PIC_TYPE_WEAK}"
      by (rule chain)
    show "mark_weak_chain (weaks sm) (0, sm) = (0, sm)" by (rule sm(6))
    show "\<forall>W k v. W \<in> set (weaks sm) \<and> (k, v) \<in> set (weak_hash s W) \<longrightarrow>
       (((k, v) \<in> set (weak_hash (gc_sweep_weaks sm) W) \<and>
         (\<forall>p. v = Obj_val p \<longrightarrow> p \<in> marks (gc_sweep_weaks sm))) \<longleftrightarrow> reach s {(W, k)} k) \<and>
       ((k, v) \<in> set (weak_hash (gc_sweep_weaks sm) W) \<longleftrightarrow> k \<in> marks sm)"
      using entries by blast
    show "\<forall>W. weak_hash (gc_sweep_weaks sm) W =
       (if W \<in> set (weaks sm) then filter (\<lambda>(k, v). k \<in> marks sm) (weak_hash s W)
        else weak_hash s W)"
      using hash by blast
  qed
qed

theorem weak_key_liveness_witness:
  "marks st_weak = {} \<and> weaks st_weak = [] \<and> ptrs_ok st_weak \<and>
   (\<exists>sm. gc_mark_phase st_weak = Inr sm \<and> set (weaks sm) = {8} \<and>
      marks sm = {8, 9, 10, 11, 12, 16, 17} \<and>
      weak_hash (gc_sweep_weaks sm) 8 = [(11, Obj_val 12), (10, Obj_val 11), (9, Obj_val 10)] \<and>
      (11, Obj_val 12) \<in> set (weak_hash st_weak 8) \<and> reach st_weak {(8, 11)} 11 \<and>
      12 \<in> marks (gc_sweep_weaks sm) \<and>
      (13, Obj_val 14) \<in> set (weak_hash st_weak 8) \<and> \<not> reach st_weak {(8, 13)} 13 \<and>
      (13, Obj_val 14) \<notin> set (weak_hash (gc_sweep_weaks sm) 8) \<and>
      14 \<notin> marks (gc_sweep_weaks sm)) \<and>
   (\<exists>s'. pic_gc ex_backend st_weak = Inr s' \<and>
      weak_hash s' 8 = [(11, Obj_val 12), (10, Obj_val 11), (9, Obj_val 10)] \<and>
      obj_at s' 12 = Some pair0 \<and> obj_at s' 14 = None)"
proof -
  have h: "marks st_weak = {}" "weaks st_weak = []" by (simp_all add: st_weak_def)
  from weak_key_liveness[OF h st_weak_ptrs_ok] show ?thesis
  proof (elim exE conjE)
    fix sm
    assume sm1: "gc_mark_phase st_weak = Inr sm"
      and sm2: "marks sm = reachable st_weak"
      and sm3: "marks (gc_sweep_weaks sm) = marks sm"
      and sm4: "set (weaks sm) =
        {W \<in> reachable st_weak. \<exists>ob. obj_at st_weak W = Some ob \<and> tt ob = PIC_TYPE_WEAK}"
      and sm6: "\<forall>W k v. W \<in> set (weaks sm) \<and> (k, v) \<in> set (weak_hash st_weak W) \<longrightarrow>
           (((k, v) \<in> set (weak_hash (gc_sweep_weaks sm) W) \<and>
             (\<forall>p. v = Obj_val p \<longrightarrow> p \<in> marks (gc_sweep_weaks sm))) \<longleftrightarrow> reach st_weak {(W, k)} k) \<and>
           ((k, v) \<in> set (weak_hash (gc_sweep_weaks sm) W) \<longleftrightarrow> k \<in> marks sm)"
      and sm5: "\<forall>W. weak_hash (gc_sweep_weaks sm) W =
           (if W \<in> set (weaks sm) then filter (\<lambda>(k, v). k \<in> marks sm) (weak_hash st_weak W)
            else weak_hash st_weak W)"
    have c: "set (weaks sm) = {8}" using sm4 st_weak_weak_objs by simp
    have m: "marks sm = {8, 9, 10, 11, 12, 16, 17}" using sm2 st_weak_reachable by simp
    have t: "weak_hash (gc_sweep_weaks sm) 8 = [(11, Obj_val 12), (10, Obj_val 11), (9, Obj_val 10)]"
      using sm5[rule_format, of 8] by (simp add: c m st_weak_hash)
    have e1: "(11, Obj_val 12) \<in> set (weak_hash st_weak 8)"
      and e2: "(13, Obj_val 14) \<in> set (weak_hash st_weak 8)"
      by (simp_all add: st_weak_hash)
    from sm6[rule_format, of 8 11 "Obj_val 12"] c e1 st_weak_reach_11
    have v: "12 \<in> marks (gc_sweep_weaks sm)" by simp
    have n: "\<not> reach st_weak {(8, 13)} 13" using st_weak_reach_sub[of "{(8, 13)}" 13] by auto
    have d: "(13, Obj_val 14) \<notin> set (weak_hash (gc_sweep_weaks sm) 8)" by (simp add: t)
    have u: "14 \<notin> marks (gc_sweep_weaks sm)" by (simp add: sm3 m)
    have g: "\<exists>s'. pic_gc ex_backend st_weak = Inr s' \<and>
           weak_hash s' 8 = [(11, Obj_val 12), (10, Obj_val 11), (9, Obj_val 10)] \<and>
           obj_at s' 12 = Some pair0 \<and> obj_at s' 14 = None"
      using ev_gc_weak st_weak_swept_fields(1,2,3) by blast
    have "\<exists>sm. gc_mark_phase st_weak = Inr sm \<and> set (weaks sm) = {8} \<and>
        marks sm = {8, 9, 10, 11, 12, 16, 17} \<and>
        weak_hash (gc_sweep_weaks sm) 8 = [(11, Obj_val 12), (10, Obj_val 11), (9, Obj_val 10)] \<and>
        (11, Obj_val 12) \<in> set (weak_hash st_weak 8) \<and> reach st_weak {(8, 11)} 11 \<and>
        12 \<in> marks (gc_sweep_weaks sm) \<and>
        (13, Obj_val 14) \<in> set (weak_hash st_weak 8) \<and> \<not> reach st_weak {(8, 13)} 13 \<and>
        (13, Obj_val 14) \<notin> set (weak_hash (gc_sweep_weaks sm) 8) \<and>
        14 \<notin> marks (gc_sweep_weaks sm)"
      by (intro conjI exI[of _ sm]) (fact sm1 c m t e1 e2 st_weak_reach_11 v n d u)+
    with h st_weak_ptrs_ok g show ?thesis by (simp only: simp_thms)
  qed
qed

text \<open>
  A weak map that the mark phase does not reach: the collection of \<open>st_dead\<close>, evaluated.
\<close>

lemma st_dead_fields:
  "objs st_dead = [(8, weak_obj [(9, Obj_val 10)]), (9, str_obj 1), (10, pair0)]"
  "marks st_dead = {}" "weaks st_dead = []" "pages st_dead = [2]"
  "heap_priv st_dead = [(8, 1), (9, 1), (10, 1)]" "oblist st_dead = []"
  "gc_enable st_dead" "fin_calls st_dead = []"
  by (simp_all add: st_dead_def)

lemma st_dead_roots: "gc_roots st_dead = [9]"
  by (simp add: gc_roots_def arena_roots_def st_dead_def)

lemma ev_roots_dead: "gc_mark_objects [9] st_dead = st_dead\<lparr>marks := {9}\<rparr>"
  by (simp add: st_dead_fields gc_mark_objects.simps(2) mark_def is_marked_def obj_at_def
      trace_refs_def obj_simps)

lemma ev_weaks_dead: "gc_mark_weaks (st_dead\<lparr>marks := {9}\<rparr>) = st_dead\<lparr>marks := {9}\<rparr>"
  by (simp add: st_dead_fields gc_mark_weaks.simps)

lemma ev_sweep_dead: "gc_sweep_phase ex_backend (st_dead\<lparr>marks := {9}\<rparr>) = Inr st_dead_swept"
proof -
  have "\<not> (3 :: size_t) \<le> 1" by (simp add: word_le_nat_alt)
  then show ?thesis
    by (simp add: st_dead_swept_def st_dead_fields gc_sweep_phase_def gc_sweep_weaks.simps
        gc_sweep_oblist_def ex_backend_fields ex_gc_sweep_page_def
        gc_finalize_object_def fin_call_def is_marked_def obj_at_def obj_simps insert_Diff_if)
qed

lemma ev_gc_dead: "pic_gc ex_backend st_dead = Inr st_dead_swept"
proof -
  have "gc_mark_phase (gc_init ex_backend st_dead) = Inr (st_dead\<lparr>marks := {9}\<rparr>)"
    by (simp add: st_dead_fields ex_backend_fields gc_mark_phase_roots st_dead_roots
        ev_roots_dead ev_weaks_dead)
  from pic_gc_enabled[OF st_dead_fields(7) this] show ?thesis
    unfolding ev_sweep_dead .
qed

lemma st_dead_ptrs_ok: "ptrs_ok st_dead"
  unfolding ptrs_ok_def weak_vals_def
  by (auto simp: st_dead_def obj_simps)

text \<open>
  The claim C1 as stated speaks of every weak map. In \<open>st_dead\<close> the key 9 of the slot
  \<open>9 \<mapsto> 10\<close> of the weak map at 8 is a root, so it is reached without the slot; but the
  weak map is not reached, it never joins the chain, and the collection frees it and the
  value at 10 and keeps the key.
\<close>

theorem unreached_weak_map_counterexample:
  "marks st_dead = {} \<and> weaks st_dead = [] \<and> ptrs_ok st_dead \<and>
   obj_at st_dead 8 = Some (weak_obj [(9, Obj_val 10)]) \<and>
   (9, Obj_val 10) \<in> set (weak_hash st_dead 8) \<and>
   reach st_dead {(8, 9)} 9 \<and>
   pic_gc ex_backend st_dead = Inr st_dead_swept \<and>
   obj_at st_dead_swept 9 = Some (str_obj 1) \<and>
   obj_at st_dead_swept 10 = None \<and> obj_at st_dead_swept 8 = None \<and>
   (9, Obj_val 10) \<notin> set (weak_hash st_dead_swept 8)"
proof -
  have "reach st_dead {(8, 9)} 9"
    by (rule reach_root) (simp add: st_dead_roots)
  moreover have "obj_at st_dead 8 = Some (weak_obj [(9, Obj_val 10)])"
    "(9, Obj_val 10) \<in> set (weak_hash st_dead 8)"
    by (simp_all add: weak_hash_def obj_at_def st_dead_fields weak_obj_def)
  moreover have "obj_at st_dead_swept 9 = Some (str_obj 1)"
    "obj_at st_dead_swept 10 = None" "obj_at st_dead_swept 8 = None"
    "(9, Obj_val 10) \<notin> set (weak_hash st_dead_swept 8)"
    by (simp_all add: weak_hash_def obj_at_def st_dead_swept_def)
  ultimately show ?thesis
    using st_dead_fields(2,3) st_dead_ptrs_ok ev_gc_dead by blast
qed

subsection \<open>The symbol table\<close>

lemma gc_mark_frame: "gc_mark s v = s\<lparr>marks := marks (gc_mark s v), weaks := weaks (gc_mark s v)\<rparr>"
  unfolding gc_mark_as_objects by (rule gc_mark_objects_frame)

lemma oblist_gc_mark [simp]: "oblist (gc_mark s v) = oblist s"
  by (subst gc_mark_frame) simp

lemma mark_weak_entries_oblist:
  "oblist (snd (mark_weak_entries es (j, s))) = oblist s"
proof (induction es arbitrary: j s)
  case Nil
  then show ?case by simp
next
  case (Cons e es)
  obtain key val where e: "e = (key, val)" by (cases e)
  show ?case
  proof (cases "is_marked s key \<and> (\<exists>p. val = Obj_val p \<and> \<not> is_marked s p)")
    case True
    then obtain p where "val = Obj_val p" "\<not> is_marked s p" "is_marked s key" by auto
    with Cons.IH[of "j + 1" "gc_mark s val"] e show ?thesis by simp
  next
    case False
    with Cons.IH[of j s] e show ?thesis by (auto split: pic_value.splits)
  qed
qed

lemma mark_weak_chain_oblist:
  "oblist (snd (mark_weak_chain ws (j, s))) = oblist s"
proof (induction ws arbitrary: j s)
  case Nil
  then show ?case by simp
next
  case (Cons w ws)
  obtain j1 s1 where step: "mark_weak_entries (weak_hash s w) (j, s) = (j1, s1)"
    by (cases "mark_weak_entries (weak_hash s w) (j, s)")
  with mark_weak_entries_oblist[of "weak_hash s w" j s] have "oblist s1 = oblist s" by simp
  with Cons.IH[of j1 s1] step show ?case by simp
qed

lemma gc_mark_weaks_oblist [simp]: "oblist (gc_mark_weaks s) = oblist s"
proof (induction s rule: gc_mark_weaks.induct)
  case (1 s)
  obtain j s' where run: "mark_weak_chain (weaks s) (0, s) = (j, s')"
    by (cases "mark_weak_chain (weaks s) (0, s)")
  with mark_weak_chain_oblist[of "weaks s" 0 s] have o: "oblist s' = oblist s" by simp
  show ?case
  proof (cases "j > 0")
    case True
    with "1.IH"[OF run[symmetric] True] run o show ?thesis
      by (simp add: gc_mark_weaks.simps[of s])
  next
    case False
    with run o show ?thesis by (simp add: gc_mark_weaks.simps[of s])
  qed
qed

lemma gc_mark_phase_oblist: "gc_mark_phase s = Inr sm \<Longrightarrow> oblist sm = oblist s"
  by (cases "weaks s = []") (auto simp: gc_mark_phase_roots, simp add: gc_mark_phase_def)

lemma gc_sweep_pages_oblist:
  assumes "oblist_untouched be"
  shows "oblist (snd (snd (gc_sweep_pages be ps (inuse, units, s)))) = oblist s"
proof (induction ps arbitrary: inuse units s)
  case Nil
  then show ?case by simp
next
  case (Cons page ps)
  obtain n s' where step: "gc_sweep_page be s page = (n, s')" by (cases "gc_sweep_page be s page")
  from assms have "oblist (snd (gc_sweep_page be s page)) = oblist s"
    unfolding oblist_untouched_def by blast
  with step have "oblist s' = oblist s" by simp
  with Cons.IH[of "inuse + n" "units + PAGE_UNITS be" s'] step show ?case by simp
qed

lemma gc_sweep_phase_oblist:
  assumes "oblist_untouched be" "gc_sweep_phase be s = Inr s'"
  shows "oblist s' = filter (\<lambda>(name, sym). sym = None \<or> the sym \<in> marks s) (oblist s)"
proof -
  let ?s2 = "gc_sweep_oblist (gc_sweep_weaks s)"
  obtain inuse units s3 where pg: "gc_sweep_pages be (pages ?s2) (0, 0, ?s2) = (inuse, units, s3)"
    by (cases "gc_sweep_pages be (pages ?s2) (0, 0, ?s2)")
  from gc_sweep_pages_oblist[OF assms(1), of "pages ?s2" 0 0 ?s2] pg
  have o3: "oblist s3 = oblist ?s2" by simp
  have o2: "oblist ?s2 = filter (\<lambda>(name, sym). sym = None \<or> the sym \<in> marks s) (oblist s)"
    by (simp add: gc_sweep_oblist_def is_marked_def gc_sweep_weaks_frame)
  from assms(2) pg have "s' = s3 \<or> heap_morecore be s3 = Inr s'"
    by (auto simp: gc_sweep_phase_def Let_def split: if_splits)
  then have "oblist s' = oblist s3"
    using assms(1) unfolding oblist_untouched_def by blast
  with o3 o2 show ?thesis by simp
qed

lemma finalize_symbol:
  "obj_at t a = Some ob \<Longrightarrow> tt ob = PIC_TYPE_SYMBOL \<Longrightarrow> gc_finalize_object t a = t"
  by (simp add: gc_finalize_object_def)

lemma finalize_oblist: "oblist (gc_finalize_object t a) = oblist t"
proof (cases "obj_at t a")
  case None
  then show ?thesis by (simp add: gc_finalize_object_def)
next
  case (Some ob)
  then show ?thesis
    by (cases "tt ob"; cases "body ob")
       (simp_all add: gc_finalize_object_def fin_call_def pic_free_def)
qed

lemma ex_sweep_cells_oblist: "oblist (snd (ex_sweep_cells cs (alive, s))) = oblist s"
proof (induction cs arbitrary: alive s)
  case Nil
  then show ?case by simp
next
  case (Cons c cs)
  obtain a u where c: "c = (a, u)" by (cases c)
  show ?case
  proof (cases "is_marked s a")
    case True
    with Cons.IH[of "alive + of_nat u" "s\<lparr>marks := marks s - {a}\<rparr>"] c show ?thesis by simp
  next
    case False
    with Cons.IH[of alive "(gc_finalize_object s a)
          \<lparr>objs := AList.delete a (objs s), heap_priv := removeAll (a, u) (heap_priv s)\<rparr>"] c
    show ?thesis by (simp add: finalize_oblist)
  qed
qed

lemma ex_heap_morecore_oblist: "ex_heap_morecore s = Inr s' \<Longrightarrow> oblist s' = oblist s"
  by (auto simp: ex_heap_morecore_def pic_malloc_def pic_panic_def Let_def
           split: sum.splits prod.splits if_splits)

lemma ex_backend_oblist: "oblist_untouched ex_backend"
  unfolding oblist_untouched_def
  by (simp add: ex_backend_def ex_gc_sweep_page_def ex_sweep_cells_oblist ex_heap_morecore_oblist)

text \<open>
  Interning: a name with a symbol in the table gets that symbol and nothing is allocated; a
  name without one gets the cell that \<^verbatim>\<open>pic_obj_alloc\<close> returns, set up as a symbol of that
  name and entered in the table.
\<close>

lemma oblist_lookup_found:
  "distinct (map fst (oblist s)) \<Longrightarrow> (name, Some p) \<in> set (oblist s) \<Longrightarrow>
   oblist_lookup s name = Some p"
  by (simp add: oblist_lookup_def)

lemma oblist_lookup_gone: "map_of (oblist s) name = None \<Longrightarrow> oblist_lookup s name = None"
  by (simp add: oblist_lookup_def)

lemma pic_intern_found: "oblist_lookup s name = Some p \<Longrightarrow> pic_intern be s n name str = Inr (p, s)"
  by (simp add: pic_intern_def)

lemma pic_intern_fresh:
  assumes "oblist_lookup s name = None"
  shows "pic_intern be s n name str =
     (case pic_obj_alloc be s n PIC_TYPE_SYMBOL of
        Inl e \<Rightarrow> Inl e
      | Inr (a, s') \<Rightarrow>
          Inr (a, s'\<lparr>objs := AList.update a \<lparr>tt = PIC_TYPE_SYMBOL, body = Symbol_obj str\<rparr> (objs s'),
                      oblist := AList.update name (Some a) (oblist s')\<rparr>))"
  using assms by (simp add: pic_intern_def)

lemma pic_intern_fresh_object:
  assumes "oblist_lookup s name = None" "pic_intern be s n name str = Inr (a, t)"
  shows "(\<exists>s'. pic_obj_alloc be s n PIC_TYPE_SYMBOL = Inr (a, s')) \<and>
    obj_at t a = Some \<lparr>tt = PIC_TYPE_SYMBOL, body = Symbol_obj str\<rparr> \<and>
    oblist_lookup t name = Some a"
  using assms
  by (auto simp: pic_intern_def obj_at_def oblist_lookup_def update_conv' split: sum.splits)

lemma ev_intern_weak_swept:
  "pic_intern ex_backend st_weak_swept 16 ''foo'' 9 =
     Inr (18, st_weak_swept
       \<lparr>arena := (\<lambda>i. 0)(0 := 8, 1 := 9, 2 := 18), arena_idx := 3,
        objs := [(8, weak_obj [(11, Obj_val 12), (10, Obj_val 11), (9, Obj_val 10)]),
                 (9, str_obj 2), (10, str_obj 3), (11, str_obj 4), (12, pair0),
                 (16, sym_obj 17), (17, str_obj 7), (18, sym_obj 9)],
        heap_priv := [(18, 1), (8, 1), (9, 1), (10, 1), (11, 1), (12, 1), (16, 1), (17, 1)],
        oblist := [(''bar'', None), (''baz'', Some 16), (''foo'', Some 18)]\<rparr>)"
  by (simp add: pic_intern_def oblist_lookup_def pic_obj_alloc_def pic_obj_alloc_unsafe_def
      init_header_def gc_protect_def obj_at_def ex_simps st_weak_swept_def st_weak_def obj_simps)

text \<open>
  C8: for a back-end that leaves the symbol table alone, and a collection with the
  collector enabled that starts with an empty chain. The mark phase returns; the symbol
  table after the second loop of the sweep, and after the collection when it returns, is
  the table before the collection without the slots whose symbol is not NULL and not
  marked by the mark phase: a name interned for such a symbol is not in the table, and
  looking it up finds nothing when no name is in the table twice. When the collection
  starts with no object marked, the marked objects are the reachable ones. The finalizer
  does nothing on a symbol, and changes the symbol table for no object: the entry is gone
  before the pages are swept. Before the collection, interning the name of such a symbol
  answered the symbol and allocated nothing. After it the lookup of the name finds nothing,
  and interning the name is the allocation of a symbol object: when it returns, it returns
  the cell that \<^verbatim>\<open>pic_obj_alloc\<close> returned on the instance after the collection, that cell
  is a symbol that refers to the name string, and the lookup of the name now finds it.
\<close>

theorem symbol_purge:
  assumes "oblist_untouched be" "gc_enable s" "weaks (gc_init be s) = []"
  shows "\<exists>sm. gc_mark_phase (gc_init be s) = Inr sm \<and> pic_gc be s = gc_sweep_phase be sm \<and>
    oblist (gc_sweep_oblist (gc_sweep_weaks sm)) =
      filter (\<lambda>(name, sym). sym = None \<or> the sym \<in> marks sm) (oblist s) \<and>
    (\<forall>s'. pic_gc be s = Inr s' \<longrightarrow>
       oblist s' = filter (\<lambda>(name, sym). sym = None \<or> the sym \<in> marks sm) (oblist s) \<and>
       (\<forall>name p. (name, Some p) \<in> set (oblist s) \<and> p \<notin> marks sm \<longrightarrow>
          (name, Some p) \<notin> set (oblist s') \<and>
          (distinct (map fst (oblist s)) \<longrightarrow> map_of (oblist s') name = None))) \<and>
    (\<forall>s' name p n str.
       pic_gc be s = Inr s' \<and> distinct (map fst (oblist s)) \<and>
       (name, Some p) \<in> set (oblist s) \<and> p \<notin> marks sm \<longrightarrow>
         pic_intern be s n name str = Inr (p, s) \<and>
         oblist_lookup s' name = None \<and>
         pic_intern be s' n name str =
           (case pic_obj_alloc be s' n PIC_TYPE_SYMBOL of
              Inl e \<Rightarrow> Inl e
            | Inr (a, t) \<Rightarrow>
                Inr (a, t\<lparr>objs := AList.update a \<lparr>tt = PIC_TYPE_SYMBOL, body = Symbol_obj str\<rparr> (objs t),
                           oblist := AList.update name (Some a) (oblist t)\<rparr>)) \<and>
         (\<forall>a t. pic_intern be s' n name str = Inr (a, t) \<longrightarrow>
            (\<exists>t0. pic_obj_alloc be s' n PIC_TYPE_SYMBOL = Inr (a, t0)) \<and>
            obj_at t a = Some \<lparr>tt = PIC_TYPE_SYMBOL, body = Symbol_obj str\<rparr> \<and>
            oblist_lookup t name = Some a)) \<and>
    (marks (gc_init be s) = {} \<and> ptrs_ok (gc_init be s) \<longrightarrow> marks sm = reachable (gc_init be s)) \<and>
    (\<forall>t a ob. obj_at t a = Some ob \<and> tt ob = PIC_TYPE_SYMBOL \<longrightarrow> gc_finalize_object t a = t) \<and>
    (\<forall>(t :: ('u, 'h) pic_state) a. oblist (gc_finalize_object t a) = oblist t)"
proof -
  let ?s0 = "gc_init be s"
  let ?sm = "gc_mark_weaks (gc_mark_objects (gc_roots ?s0) ?s0)"
  let ?keep = "\<lambda>(name :: string, sym). sym = None \<or> the sym \<in> marks ?sm"
  have mp: "gc_mark_phase ?s0 = Inr ?sm" by (rule gc_mark_phase_roots[OF assms(3)])
  have gc: "pic_gc be s = gc_sweep_phase be ?sm" using assms(2) mp by (rule pic_gc_enabled)
  from assms(1) have o0: "oblist ?s0 = oblist s" unfolding oblist_untouched_def by blast
  then have os: "oblist ?sm = oblist s" by simp
  have a: "oblist (gc_sweep_oblist (gc_sweep_weaks ?sm)) = filter ?keep (oblist s)"
    by (simp add: gc_sweep_oblist_def is_marked_def gc_sweep_weaks_frame o0)
  have b: "oblist s' = filter ?keep (oblist s) \<and>
       (\<forall>name p. (name, Some p) \<in> set (oblist s) \<and> p \<notin> marks ?sm \<longrightarrow>
          (name, Some p) \<notin> set (oblist s') \<and>
          (distinct (map fst (oblist s)) \<longrightarrow> map_of (oblist s') name = None))"
    if r: "pic_gc be s = Inr s'" for s'
  proof -
    from r gc have "gc_sweep_phase be ?sm = Inr s'" by simp
    from gc_sweep_phase_oblist[OF assms(1) this] os
    have o: "oblist s' = filter ?keep (oblist s)" by simp
    have "map_of (filter ?keep (oblist s)) name = None"
      if d: "distinct (map fst (oblist s))" and e: "(name, Some p) \<in> set (oblist s)" and u: "p \<notin> marks ?sm"
      for name p
    proof (rule ccontr)
      assume "map_of (filter ?keep (oblist s)) name \<noteq> None"
      then obtain y where "map_of (filter ?keep (oblist s)) name = Some y" by auto
      then have "(name, y) \<in> set (filter ?keep (oblist s))" by (rule map_of_SomeD)
      then have y: "(name, y) \<in> set (oblist s)" "y = None \<or> the y \<in> marks ?sm" by auto
      from d e y(1) have "y = Some p" by (meson eq_key_imp_eq_value)
      with y(2) u show False by simp
    qed
    with o show ?thesis by auto
  qed
  have d: "pic_intern be s n name str = Inr (p, s) \<and>
         oblist_lookup s' name = None \<and>
         pic_intern be s' n name str =
           (case pic_obj_alloc be s' n PIC_TYPE_SYMBOL of
              Inl e \<Rightarrow> Inl e
            | Inr (a, t) \<Rightarrow>
                Inr (a, t\<lparr>objs := AList.update a \<lparr>tt = PIC_TYPE_SYMBOL, body = Symbol_obj str\<rparr> (objs t),
                           oblist := AList.update name (Some a) (oblist t)\<rparr>)) \<and>
         (\<forall>a t. pic_intern be s' n name str = Inr (a, t) \<longrightarrow>
            (\<exists>t0. pic_obj_alloc be s' n PIC_TYPE_SYMBOL = Inr (a, t0)) \<and>
            obj_at t a = Some \<lparr>tt = PIC_TYPE_SYMBOL, body = Symbol_obj str\<rparr> \<and>
            oblist_lookup t name = Some a)"
    if r: "pic_gc be s = Inr s' \<and> distinct (map fst (oblist s)) \<and>
       (name, Some p) \<in> set (oblist s) \<and> p \<notin> marks ?sm"
    for s' name p n str
  proof -
    from r b[of s'] have "map_of (oblist s') name = None" by blast
    then have g: "oblist_lookup s' name = None" by (rule oblist_lookup_gone)
    from r have "oblist_lookup s name = Some p" by (simp add: oblist_lookup_found)
    then have f: "pic_intern be s n name str = Inr (p, s)" by (rule pic_intern_found)
    from f g pic_intern_fresh[OF g, of be n str] pic_intern_fresh_object[OF g, of be n str]
    show ?thesis by blast
  qed
  have c: "marks ?sm = reachable ?s0" if "marks ?s0 = {} \<and> ptrs_ok ?s0"
    using gc_mark_phase_reachable[of ?s0] that assms(3) mp by auto
  show ?thesis
  proof (intro exI[of _ ?sm] conjI)
    show "gc_mark_phase ?s0 = Inr ?sm" by (rule mp)
    show "pic_gc be s = gc_sweep_phase be ?sm" by (rule gc)
    show "oblist (gc_sweep_oblist (gc_sweep_weaks ?sm)) = filter ?keep (oblist s)" by (rule a)
    show "\<forall>s'. pic_gc be s = Inr s' \<longrightarrow>
       oblist s' = filter ?keep (oblist s) \<and>
       (\<forall>name p. (name, Some p) \<in> set (oblist s) \<and> p \<notin> marks ?sm \<longrightarrow>
          (name, Some p) \<notin> set (oblist s') \<and>
          (distinct (map fst (oblist s)) \<longrightarrow> map_of (oblist s') name = None))"
      using b by blast
    show "(\<forall>s' name p n str.
           pic_gc be s = Inr s' \<and> distinct (map fst (oblist s)) \<and>
           (name, Some p) \<in> set (oblist s) \<and> p \<notin> marks ?sm \<longrightarrow>
             pic_intern be s n name str = Inr (p, s) \<and>
             oblist_lookup s' name = None \<and>
             pic_intern be s' n name str =
               (case pic_obj_alloc be s' n PIC_TYPE_SYMBOL of
                  Inl e \<Rightarrow> Inl e
                | Inr (a, t) \<Rightarrow>
                    Inr (a, t\<lparr>objs := AList.update a \<lparr>tt = PIC_TYPE_SYMBOL, body = Symbol_obj str\<rparr> (objs t),
                               oblist := AList.update name (Some a) (oblist t)\<rparr>)) \<and>
             (\<forall>a t. pic_intern be s' n name str = Inr (a, t) \<longrightarrow>
                (\<exists>t0. pic_obj_alloc be s' n PIC_TYPE_SYMBOL = Inr (a, t0)) \<and>
                obj_at t a = Some \<lparr>tt = PIC_TYPE_SYMBOL, body = Symbol_obj str\<rparr> \<and>
                oblist_lookup t name = Some a))"
      using d by blast
    show "marks ?s0 = {} \<and> ptrs_ok ?s0 \<longrightarrow> marks ?sm = reachable ?s0" using c by blast
    show "\<forall>t a ob. obj_at t a = Some ob \<and> tt ob = PIC_TYPE_SYMBOL \<longrightarrow> gc_finalize_object t a = t"
      using finalize_symbol by blast
    show "\<forall>(t :: ('u, 'h) pic_state) a. oblist (gc_finalize_object t a) = oblist t"
      using finalize_oblist by blast
  qed
qed

theorem symbol_purge_witness:
  "oblist_untouched ex_backend \<and> gc_enable st_weak \<and> weaks (gc_init ex_backend st_weak) = [] \<and>
   oblist st_weak = [(''foo'', Some 14), (''bar'', None), (''baz'', Some 16)] \<and>
   (\<exists>sm. gc_mark_phase st_weak = Inr sm \<and> pic_gc ex_backend st_weak = gc_sweep_phase ex_backend sm \<and>
      marks sm = {8, 9, 10, 11, 12, 16, 17} \<and>
      oblist (gc_sweep_oblist (gc_sweep_weaks sm)) = [(''bar'', None), (''baz'', Some 16)]) \<and>
   (\<exists>s'. pic_gc ex_backend st_weak = Inr s' \<and>
      oblist s' = [(''bar'', None), (''baz'', Some 16)] \<and> map_of (oblist s') ''foo'' = None) \<and>
   pic_gc ex_backend st_weak = Inr st_weak_swept \<and> obj_at st_weak_swept 14 = None \<and>
   pic_intern ex_backend st_weak 16 ''foo'' 9 = Inr (14, st_weak) \<and>
   oblist_lookup st_weak_swept ''foo'' = None \<and>
   (\<exists>t. pic_intern ex_backend st_weak_swept 16 ''foo'' 9 = Inr (18, t) \<and>
      (\<exists>t0. pic_obj_alloc ex_backend st_weak_swept 16 PIC_TYPE_SYMBOL = Inr (18, t0)) \<and>
      obj_at t 18 = Some (sym_obj 9) \<and> oblist_lookup t ''foo'' = Some 18)"
proof -
  have i: "gc_init ex_backend st_weak = st_weak" by (simp add: ex_backend_def)
  have h: "gc_enable st_weak" "weaks (gc_init ex_backend st_weak) = []"
    "marks st_weak = {}"
    "oblist st_weak = [(''foo'', Some 14), (''bar'', None), (''baz'', Some 16)]"
    unfolding i by (simp_all add: st_weak_def)
  from symbol_purge[OF ex_backend_oblist h(1,2)] show ?thesis
  proof (elim exE conjE)
    fix sm
    assume sm1: "gc_mark_phase (gc_init ex_backend st_weak) = Inr sm"
      and sm2: "pic_gc ex_backend st_weak = gc_sweep_phase ex_backend sm"
      and sm3: "oblist (gc_sweep_oblist (gc_sweep_weaks sm)) =
        filter (\<lambda>(name, sym). sym = None \<or> the sym \<in> marks sm) (oblist st_weak)"
      and sm4: "marks (gc_init ex_backend st_weak) = {} \<and> ptrs_ok (gc_init ex_backend st_weak) \<longrightarrow>
        marks sm = reachable (gc_init ex_backend st_weak)"
      and sm6: "\<forall>s' name p n str.
        pic_gc ex_backend st_weak = Inr s' \<and> distinct (map fst (oblist st_weak)) \<and>
        (name, Some p) \<in> set (oblist st_weak) \<and> p \<notin> marks sm \<longrightarrow>
          pic_intern ex_backend st_weak n name str = Inr (p, st_weak) \<and>
          oblist_lookup s' name = None \<and>
          pic_intern ex_backend s' n name str =
            (case pic_obj_alloc ex_backend s' n PIC_TYPE_SYMBOL of
               Inl e \<Rightarrow> Inl e
             | Inr (a, t) \<Rightarrow>
                 Inr (a, t\<lparr>objs := AList.update a \<lparr>tt = PIC_TYPE_SYMBOL, body = Symbol_obj str\<rparr> (objs t),
                            oblist := AList.update name (Some a) (oblist t)\<rparr>)) \<and>
          (\<forall>a t. pic_intern ex_backend s' n name str = Inr (a, t) \<longrightarrow>
             (\<exists>t0. pic_obj_alloc ex_backend s' n PIC_TYPE_SYMBOL = Inr (a, t0)) \<and>
             obj_at t a = Some \<lparr>tt = PIC_TYPE_SYMBOL, body = Symbol_obj str\<rparr> \<and>
             oblist_lookup t name = Some a)"
      and sm5: "\<forall>s'. pic_gc ex_backend st_weak = Inr s' \<longrightarrow>
        oblist s' = filter (\<lambda>(name, sym). sym = None \<or> the sym \<in> marks sm) (oblist st_weak) \<and>
        (\<forall>name p. (name, Some p) \<in> set (oblist st_weak) \<and> p \<notin> marks sm \<longrightarrow>
           (name, Some p) \<notin> set (oblist s') \<and>
           (distinct (map fst (oblist st_weak)) \<longrightarrow> map_of (oblist s') name = None))"
    from sm4 h(3) st_weak_ptrs_ok have m: "marks sm = {8, 9, 10, 11, 12, 16, 17}"
      unfolding i st_weak_reachable by blast
    from sm3 have o: "oblist (gc_sweep_oblist (gc_sweep_weaks sm)) = [(''bar'', None), (''baz'', Some 16)]"
      unfolding m h(4) by simp
    from sm5[rule_format, OF ev_gc_weak]
    have o': "oblist st_weak_swept =
        filter (\<lambda>(name, sym). sym = None \<or> the sym \<in> marks sm) (oblist st_weak)"
      and l: "(''foo'', Some 14) \<in> set (oblist st_weak) \<and> 14 \<notin> marks sm \<longrightarrow>
        (distinct (map fst (oblist st_weak)) \<longrightarrow> map_of (oblist st_weak_swept) ''foo'' = None)"
      by blast+
    from o' have o2: "oblist st_weak_swept = [(''bar'', None), (''baz'', Some 16)]"
      unfolding m h(4) by simp
    from l have l2: "map_of (oblist st_weak_swept) ''foo'' = None"
      unfolding m h(4) by simp
    from ev_gc_weak o2 l2 have g: "\<exists>s'. pic_gc ex_backend st_weak = Inr s' \<and>
        oblist s' = [(''bar'', None), (''baz'', Some 16)] \<and> map_of (oblist s') ''foo'' = None"
      by blast
    have pre: "pic_gc ex_backend st_weak = Inr st_weak_swept \<and> distinct (map fst (oblist st_weak)) \<and>
        (''foo'', Some 14) \<in> set (oblist st_weak) \<and> 14 \<notin> marks sm"
      unfolding m h(4) using ev_gc_weak by simp
    from sm6[rule_format, OF pre, of 16 9]
    have n1: "pic_intern ex_backend st_weak 16 ''foo'' 9 = Inr (14, st_weak)"
      and n2: "oblist_lookup st_weak_swept ''foo'' = None"
      and n3: "\<forall>a t. pic_intern ex_backend st_weak_swept 16 ''foo'' 9 = Inr (a, t) \<longrightarrow>
             (\<exists>t0. pic_obj_alloc ex_backend st_weak_swept 16 PIC_TYPE_SYMBOL = Inr (a, t0)) \<and>
             obj_at t a = Some \<lparr>tt = PIC_TYPE_SYMBOL, body = Symbol_obj 9\<rparr> \<and>
             oblist_lookup t ''foo'' = Some a"
      by blast+
    from n3[rule_format, OF ev_intern_weak_swept]
    have n4: "\<exists>t. pic_intern ex_backend st_weak_swept 16 ''foo'' 9 = Inr (18, t) \<and>
        (\<exists>t0. pic_obj_alloc ex_backend st_weak_swept 16 PIC_TYPE_SYMBOL = Inr (18, t0)) \<and>
        obj_at t 18 = Some (sym_obj 9) \<and> oblist_lookup t ''foo'' = Some 18"
      using ev_intern_weak_swept by (auto simp: sym_obj_def)
    have x: "\<exists>sm. gc_mark_phase st_weak = Inr sm \<and>
        pic_gc ex_backend st_weak = gc_sweep_phase ex_backend sm \<and>
        marks sm = {8, 9, 10, 11, 12, 16, 17} \<and>
        oblist (gc_sweep_oblist (gc_sweep_weaks sm)) = [(''bar'', None), (''baz'', Some 16)]"
      using sm1 sm2 m o unfolding i by blast
    from ex_backend_oblist h(1,2,4) x g ev_gc_weak st_weak_swept_fields(3) n1 n2 n4
    show ?thesis by (simp only: simp_thms)
  qed
qed

end
